theory Spec2Isabelle
  imports Complex_Main "HOL-Library.Word" "HOL-Library.Log_Nat" "HOL-Library.Multiset"
begin

unbundle bit_operations_syntax

section \<open>JavaScript numbers and strings\<close>

text \<open>
  A JavaScript string is a sequence of UTF-16 code units: \<open>s.length\<close> counts them,
  \<open>s.charCodeAt(i)\<close> and \<open>s[i]\<close> read one.  \<open>js\<close> turns an ASCII literal
  into such a sequence.
\<close>

type_synonym u32 = "32 word"
type_synonym jsstring = "16 word list"

definition js :: "string \<Rightarrow> jsstring" where
  "js s = map (\<lambda>ch. word_of_nat (of_char ch)) s"

text \<open>
  A JavaScript number is an IEEE double.  Every number that \<open>createSeededRNG\<close>
  holds is an integer, so numbers are modelled as \<open>int\<close>; the only operation on them
  that is not a 32-bit operation is \<open>+\<close>, which rounds its exact result to the nearest
  double (53 bits of significand, ties to even).  \<open>round_double\<close> is that rounding on
  integers (the doubles of magnitude below \<open>2 ^ 1024\<close>).
\<close>

definition round_double :: "int \<Rightarrow> int" where
  "round_double x =
     (let a = \<bar>x\<bar>;
          q = 2 ^ nat (bitlen a - 53);
          m = a div q;
          r = a mod q;
          m' = (if 2 * r > q \<or> (2 * r = q \<and> odd m) then m + 1 else m)
      in sgn x * (m' * q))"

definition js_add :: "int \<Rightarrow> int \<Rightarrow> int" where
  "js_add a b = round_double (a + b)"

text \<open>
  The bitwise operators and \<open>Math.imul\<close> first reduce their operands modulo
  \<open>2 ^ 32\<close> (ToInt32 and ToUint32 give the same 32 bits); \<open>^\<close>, \<open>|\<close> and
  \<open>Math.imul\<close> return the bits read as a signed number, \<open>>>>\<close> as an unsigned one.
\<close>

definition to_int32 :: "int \<Rightarrow> u32" where
  "to_int32 x = word_of_int x"

definition imul :: "int \<Rightarrow> int \<Rightarrow> int" where
  "imul a b = sint (to_int32 a * to_int32 b)"

definition js_xor :: "int \<Rightarrow> int \<Rightarrow> int" where
  "js_xor a b = sint (to_int32 a XOR to_int32 b)"

definition js_or :: "int \<Rightarrow> int \<Rightarrow> int" where
  "js_or a b = sint (to_int32 a OR to_int32 b)"

definition js_ushr :: "int \<Rightarrow> nat \<Rightarrow> int" where
  "js_ushr a n = uint (drop_bit n (to_int32 a))"

section \<open>createSeededRNG (src/services/geminiService.ts)\<close>

text \<open>
  \<open>hash_loop\<close> is the \<open>for\<close> loop over the seed string, \<open>seed_of\<close> the value the
  closure variable \<open>seed\<close> starts with, and \<open>rng_call\<close> one call of the returned
  function: it takes the current value of \<open>seed\<close> and gives the returned float and
  the new value of \<open>seed\<close>.  The returned float is an unsigned 32-bit integer divided
  by \<open>2 ^ 32\<close>, which a double holds exactly, so it is modelled as a real.
\<close>

fun hash_loop :: "int \<Rightarrow> jsstring \<Rightarrow> int" where
  "hash_loop h [] = h"
| "hash_loop h (ch # rest) = hash_loop (imul (js_xor h (uint ch)) 16777619) rest"

definition seed_of :: "jsstring \<Rightarrow> int" where
  "seed_of seedStr = hash_loop (js_ushr 2166136261 0) seedStr"

definition mix :: "int \<Rightarrow> int" where
  "mix t0 =
     (let t = imul (js_xor t0 (js_ushr t0 15)) (js_or t0 1);
          t = js_xor t (js_add t (imul (js_xor t (js_ushr t 7)) (js_or t 61)))
      in js_ushr (js_xor t (js_ushr t 14)) 0)"

definition rng_call :: "int \<Rightarrow> real \<times> int" where
  "rng_call seed =
     (let seed' = js_add seed 0x6D2B79F5
      in (real_of_int (mix seed') / 4294967296, seed'))"

text \<open>
  Each call of \<open>createSeededRNG\<close> makes a new closure with a variable \<open>seed\<close> of its
  own.  The heap maps a closure (its address) to the current value of its variable;
  \<open>call_rng\<close> calls a closure.
\<close>

record rng_heap =
  seed_var :: "nat \<Rightarrow> int"
  next_closure :: nat

definition createSeededRNG :: "jsstring \<Rightarrow> rng_heap \<Rightarrow> nat \<times> rng_heap" where
  "createSeededRNG seedStr hp =
     (let a = next_closure hp
      in (a, \<lparr>seed_var = (seed_var hp)(a := seed_of seedStr), next_closure = Suc a\<rparr>))"

definition call_rng :: "nat \<Rightarrow> rng_heap \<Rightarrow> real \<times> rng_heap" where
  "call_rng g hp =
     (let (x, seed') = rng_call (seed_var hp g)
      in (x, hp\<lparr>seed_var := (seed_var hp)(g := seed')\<rparr>))"

text \<open>
  A program that calls closures in some order: the trace records which closure was called
  and what it returned.  \<open>outputs_of\<close> is the sequence of outputs of one closure.
\<close>

fun run_calls :: "nat list \<Rightarrow> rng_heap \<Rightarrow> (nat \<times> real) list" where
  "run_calls [] hp = []"
| "run_calls (g # gs) hp = (let (x, hp') = call_rng g hp in (g, x) # run_calls gs hp')"

definition outputs_of :: "nat \<Rightarrow> (nat \<times> real) list \<Rightarrow> real list" where
  "outputs_of g trace = map snd (filter (\<lambda>e. fst e = g) trace)"

text \<open>The first \<open>n\<close> outputs of a closure whose variable holds \<open>seed\<close>.\<close>

fun rng_outputs :: "nat \<Rightarrow> int \<Rightarrow> real list" where
  "rng_outputs 0 seed = []"
| "rng_outputs (Suc n) seed = (let (x, seed') = rng_call seed in x # rng_outputs n seed')"

text \<open>The value of \<open>seed\<close> after \<open>n\<close> calls, and the output of call number \<open>n + 1\<close>.\<close>

fun seed_after :: "nat \<Rightarrow> int \<Rightarrow> int" where
  "seed_after 0 seed = seed"
| "seed_after (Suc n) seed = seed_after n (snd (rng_call seed))"

definition nth_output :: "jsstring \<Rightarrow> nat \<Rightarrow> real" where
  "nth_output seedStr n = fst (rng_call (seed_after n (seed_of seedStr)))"

subsection \<open>The generator as the specification words it\<close>

text \<open>
  The specification's definition, all arithmetic modulo \<open>2 ^ 32\<close>: an FNV-1a style hash
  of the code units, then a state advanced by \<open>0x6D2B79F5\<close> and mixed.
\<close>

fun spec_hash :: "u32 \<Rightarrow> jsstring \<Rightarrow> u32" where
  "spec_hash acc [] = acc"
| "spec_hash acc (ch # rest) = spec_hash ((acc XOR ucast ch) * 16777619) rest"

definition spec_mix :: "u32 \<Rightarrow> u32" where
  "spec_mix s =
     (let t = (s XOR drop_bit 15 s) * (s OR 1);
          t = t XOR (t + (t XOR drop_bit 7 t) * (t OR 61))
      in t XOR drop_bit 14 t)"

fun spec_state :: "jsstring \<Rightarrow> nat \<Rightarrow> u32" where
  "spec_state seedStr 0 = spec_hash 2166136261 seedStr"
| "spec_state seedStr (Suc n) = spec_state seedStr n + 0x6D2B79F5"

definition spec_output :: "jsstring \<Rightarrow> nat \<Rightarrow> real" where
  "spec_output seedStr n = real (unat (spec_mix (spec_state seedStr (Suc n)))) / 4294967296"

section \<open>The Sudoku generator (generateBoard of the Sudoku component)\<close>

text \<open>
  \<open>generateBoard\<close> makes one closure with \<open>createSeededRNG(seed)\<close> and calls only
  that one; the functions below pass the value of its variable along.  The seed string and
  the difficulty are parameters (the component takes the first from the date or from
  \<open>Math.random\<close>, the second from its properties).

  \<open>shuffle\<close>: for \<open>i\<close> from \<open>length - 1\<close> down to 1, \<open>j = floor(rng() * (i + 1))\<close>
  and the elements at \<open>i\<close> and \<open>j\<close> are exchanged.  \<open>rng()\<close> is an integer below
  \<open>2 ^ 32\<close> divided by \<open>2 ^ 32\<close> and \<open>i + 1\<close> is small, so the product is exact in
  a double, and \<open>j \<le> i\<close> (lemma \<open>rng_index_le\<close>): both indices are inside the array.
\<close>

fun shuffle_from :: "nat \<Rightarrow> 'a list \<Rightarrow> int \<Rightarrow> 'a list \<times> int" where
  "shuffle_from 0 array seed = (array, seed)"
| "shuffle_from (Suc k) array seed =
     (let i = Suc k;
          (x, seed') = rng_call seed;
          j = nat \<lfloor>x * real (i + 1)\<rfloor>
      in shuffle_from k (array[i := array ! j, j := array ! i]) seed')"

definition shuffle :: "'a list \<Rightarrow> int \<Rightarrow> 'a list \<times> int" where
  "shuffle array seed = shuffle_from (length array - 1) array seed"

type_synonym sudoku = "int list list"

definition baseGrid :: sudoku where
  "baseGrid =
    [[5, 3, 4, 6, 7, 8, 9, 1, 2], [6, 7, 2, 1, 9, 5, 3, 4, 8], [1, 9, 8, 3, 4, 2, 5, 6, 7],
     [8, 5, 9, 7, 6, 1, 4, 2, 3], [4, 2, 6, 8, 5, 3, 7, 9, 1], [7, 1, 3, 9, 2, 4, 8, 5, 6],
     [9, 6, 1, 5, 3, 7, 2, 8, 4], [2, 8, 7, 4, 1, 9, 6, 3, 5], [3, 4, 5, 2, 8, 6, 1, 7, 9]]"

text \<open>\<open>g[0].map((_, colIndex) => g.map(row => row[colIndex]))\<close>\<close>

definition transpose_grid :: "'a list list \<Rightarrow> 'a list list" where
  "transpose_grid g = map (\<lambda>colIndex. map (\<lambda>row. row ! colIndex) g) [0..<length (g ! 0)]"

text \<open>
  One round of the loop \<open>for (b = 0; b < 9; b += 3)\<close>: a coin flip, and if it is above
  one half the three rows of the band are shuffled and written back.
\<close>

definition shuffle_band :: "nat \<Rightarrow> 'a list list \<times> int \<Rightarrow> 'a list list \<times> int" where
  "shuffle_band b st =
     (let (g, seed) = st;
          (x, seed1) = rng_call seed
      in if x > 0.5
         then (let (rows, seed2) = shuffle [g ! b, g ! (b + 1), g ! (b + 2)] seed1
               in (g[b := rows ! 0, b + 1 := rows ! 1, b + 2 := rows ! 2], seed2))
         else (g, seed1))"

definition shuffle_rows_in_bands :: "'a list list \<times> int \<Rightarrow> 'a list list \<times> int" where
  "shuffle_rows_in_bands st = shuffle_band 6 (shuffle_band 3 (shuffle_band 0 st))"

text \<open>Step 1: the coin flip and the transpose.\<close>

definition maybe_transpose :: "'a list list \<times> int \<Rightarrow> 'a list list \<times> int" where
  "maybe_transpose st =
     (let (g, seed) = st;
          (x, seed1) = rng_call seed
      in if x > 0.5 then (transpose_grid g, seed1) else (g, seed1))"

text \<open>Step 3: transpose, the loop of step 2, transpose back.\<close>

definition shuffle_cols_in_bands :: "'a list list \<times> int \<Rightarrow> 'a list list \<times> int" where
  "shuffle_cols_in_bands st =
     (let (g, seed) = st;
          (g', seed') = shuffle_rows_in_bands (transpose_grid g, seed)
      in (transpose_grid g', seed'))"

text \<open>Step 4: the three bands (\<open>slice(0, 3)\<close>, \<open>slice(3, 6)\<close>, \<open>slice(6, 9)\<close>) are shuffled.\<close>

definition swap_bands :: "'a list list \<times> int \<Rightarrow> 'a list list \<times> int" where
  "swap_bands st =
     (let (g, seed) = st;
          (bands, seed') = shuffle [take 3 g, take 3 (drop 3 g), take 3 (drop 6 g)] seed
      in (bands ! 0 @ bands ! 1 @ bands ! 2, seed'))"

text \<open>
  Step 5: a \<open>Map\<close> from each digit to the digit at its place in a shuffled copy of
  \<open>[1..9]\<close>, applied to every cell.  \<open>Map.get\<close> of a key that is absent is
  \<open>undefined\<close>; the model writes 0 for it, which is no digit (every cell of the grid is a
  key, so it does not arise).
\<close>

definition map_get :: "(int \<rightharpoonup> int) \<Rightarrow> int \<Rightarrow> int" where
  "map_get m k = (case m k of Some v \<Rightarrow> v | None \<Rightarrow> 0)"

definition permute_numbers :: "sudoku \<times> int \<Rightarrow> sudoku \<times> int" where
  "permute_numbers st =
     (let (g, seed) = st;
          nums = [1, 2, 3, 4, 5, 6, 7, 8, 9];
          (permuted, seed') = shuffle nums seed;
          m = map_of (zip nums permuted)
      in (map (\<lambda>row. map (\<lambda>val. map_get m val) row) g, seed'))"

text \<open>
  The grid and the value of \<open>seed\<close> after steps 1 to 3, then the solution (after steps
  4 and 5), and the mask.
\<close>

definition steps_1_to_3 :: "jsstring \<Rightarrow> sudoku \<times> int" where
  "steps_1_to_3 seedStr =
     shuffle_cols_in_bands (shuffle_rows_in_bands (maybe_transpose (baseGrid, seed_of seedStr)))"

definition generate_solution :: "jsstring \<Rightarrow> sudoku \<times> int" where
  "generate_solution seedStr = permute_numbers (swap_bands (steps_1_to_3 seedStr))"

definition cellsToKeep :: "string \<Rightarrow> nat" where
  "cellsToKeep difficulty =
     (if difficulty = ''Easy'' then 45 else if difficulty = ''Medium'' then 35 else 24)"

definition mask_row :: "nat set \<Rightarrow> nat \<Rightarrow> int list \<Rightarrow> int option list" where
  "mask_row keptIndices r row =
     map (\<lambda>(c, val). if r * 9 + c \<in> keptIndices then Some val else None)
       (zip [0..<length row] row)"

definition mask_grid :: "nat set \<Rightarrow> sudoku \<Rightarrow> int option list list" where
  "mask_grid keptIndices g = map (\<lambda>(r, row). mask_row keptIndices r row) (zip [0..<length g] g)"

record board =
  solution :: sudoku
  puzzle :: "int option list list"

definition generateBoard :: "jsstring \<Rightarrow> string \<Rightarrow> board" where
  "generateBoard seedStr difficulty =
     (let (g, seed) = generate_solution seedStr;
          (indices, seed') = shuffle [0..<81] seed;
          keptIndices = set (take (cellsToKeep difficulty) indices)
      in \<lparr>solution = g, puzzle = mask_grid keptIndices g\<rparr>)"

subsection \<open>What the claims say about a board\<close>

text \<open>
  A row, a column or a box holds each digit from 1 to 9 exactly once; a solution is a
  9 by 9 grid in which every row, column and box does.
\<close>

definition each_digit_once :: "int list \<Rightarrow> bool" where
  "each_digit_once cells \<longleftrightarrow> (\<forall>d \<in> {1..9}. count_list cells d = 1)"

definition column :: "sudoku \<Rightarrow> nat \<Rightarrow> int list" where
  "column g c = map (\<lambda>row. row ! c) g"

definition box :: "sudoku \<Rightarrow> nat \<Rightarrow> nat \<Rightarrow> int list" where
  "box g br bc = concat (map (\<lambda>row. take 3 (drop (3 * bc) row)) (take 3 (drop (3 * br) g)))"

definition valid_solution :: "sudoku \<Rightarrow> bool" where
  "valid_solution g \<longleftrightarrow>
     length g = 9 \<and> (\<forall>row \<in> set g. length row = 9) \<and>
     (\<forall>r \<in> {0..<9}. each_digit_once (g ! r)) \<and>
     (\<forall>c \<in> {0..<9}. each_digit_once (column g c)) \<and>
     (\<forall>br \<in> {0..<3}. \<forall>bc \<in> {0..<3}. each_digit_once (box g br bc))"

text \<open>The number of cells of the puzzle that are not \<open>null\<close>.\<close>

definition revealed :: "int option list list \<Rightarrow> nat" where
  "revealed p = length (filter (\<lambda>cell. cell \<noteq> None) (concat p))"

text \<open>Every cell of the puzzle that is not \<open>null\<close> is the cell of the solution.\<close>

definition subset_reveal :: "int option list list \<Rightarrow> sudoku \<Rightarrow> bool" where
  "subset_reveal p g \<longleftrightarrow>
     length p = length g \<and>
     (\<forall>r < length g. length (p ! r) = length (g ! r) \<and>
        (\<forall>c < length (g ! r). p ! r ! c = None \<or> p ! r ! c = Some (g ! r ! c)))"

text \<open>
  The generator with every one of the five transformations behind a coin flip, as the
  specification words it: the band shuffle and the digit relabeling are skipped when their
  coin flip is not above one half.
\<close>

definition gated :: "('a \<times> int \<Rightarrow> 'a \<times> int) \<Rightarrow> 'a \<times> int \<Rightarrow> 'a \<times> int" where
  "gated f st =
     (let (g, seed) = st;
          (x, seed1) = rng_call seed
      in if x > 0.5 then f (g, seed1) else (g, seed1))"

definition spec_generate_solution :: "jsstring \<Rightarrow> sudoku \<times> int" where
  "spec_generate_solution seedStr =
     gated permute_numbers (gated swap_bands (steps_1_to_3 seedStr))"

text \<open>
  The generator with the first three transformations behind a coin flip and the last two
  without one: the transpose and the shuffle of one band as such, and the sequence.
\<close>

definition transpose_step :: "'a list list \<times> int \<Rightarrow> 'a list list \<times> int" where
  "transpose_step st = (transpose_grid (fst st), snd st)"

definition band_step :: "nat \<Rightarrow> 'a list list \<times> int \<Rightarrow> 'a list list \<times> int" where
  "band_step b st =
     (let (g, seed) = st;
          (rows, seed') = shuffle [g ! b, g ! (b + 1), g ! (b + 2)] seed
      in (g[b := rows ! 0, b + 1 := rows ! 1, b + 2 := rows ! 2], seed'))"

definition gated_bands :: "'a list list \<times> int \<Rightarrow> 'a list list \<times> int" where
  "gated_bands st = gated (band_step 6) (gated (band_step 3) (gated (band_step 0) st))"

definition amended_generate_solution :: "jsstring \<Rightarrow> sudoku \<times> int" where
  "amended_generate_solution seedStr =
     permute_numbers (swap_bands (transpose_step (gated_bands (transpose_step
       (gated_bands (gated transpose_step (baseGrid, seed_of seedStr)))))))"

text \<open>The digits, each once, as a multiset.\<close>

definition digits :: "int multiset" where
  "digits = mset [1, 2, 3, 4, 5, 6, 7, 8, 9]"

text \<open>
  The same validity read off the three bands, each as a multiset of rows: it does not
  depend on the order of the rows inside a band nor on the order of the bands.
\<close>

definition band_box :: "nat \<Rightarrow> int list multiset \<Rightarrow> int multiset" where
  "band_box bc M = (\<Sum>row \<in># M. mset (take 3 (drop (3 * bc) row)))"

definition bands_ok :: "int list multiset multiset \<Rightarrow> bool" where
  "bands_ok MM \<longleftrightarrow>
     size MM = 3 \<and>
     (\<forall>M \<in># MM. size M = 3 \<and> (\<forall>row \<in># M. mset row = digits) \<and>
        (\<forall>bc \<in> {0..<3}. band_box bc M = digits)) \<and>
     (\<forall>c \<in> {0..<9}. image_mset (\<lambda>row. row ! c) (\<Sum>\<^sub># MM) = digits)"

section \<open>The crossword layout (src/services/geminiService.ts)\<close>

subsection \<open>The grid\<close>

text \<open>
  \<open>grid\<close> is an array of \<open>size\<close> arrays of \<open>size\<close> cells, all \<open>null\<close> at first.  A
  JavaScript array answers a read at any integer key: \<open>undefined\<close> where nothing was
  written (a negative key, a key past the end), and a write at a key past the end makes the
  array longer, a write at a negative key makes a property and leaves the length.  The outer
  array is never written; reading a row that is not there gives \<open>undefined\<close>, and reading
  or writing a cell of it throws a TypeError, which is \<open>None\<close> below.
\<close>

datatype cell = Undefined | Null | Letter "16 word"

record jsarray =
  js_length :: nat
  elem :: "int \<Rightarrow> cell"

type_synonym grid = "jsarray list"

definition array_set :: "jsarray \<Rightarrow> int \<Rightarrow> cell \<Rightarrow> jsarray" where
  "array_set a i v =
     \<lparr>js_length = (if int (js_length a) \<le> i then nat (i + 1) else js_length a),
      elem = (elem a)(i := v)\<rparr>"

definition new_grid :: "nat \<Rightarrow> grid" where
  "new_grid sz =
     replicate sz \<lparr>js_length = sz, elem = (\<lambda>i. if 0 \<le> i \<and> i < int sz then Null else Undefined)\<rparr>"

definition grid_get :: "grid \<Rightarrow> int \<Rightarrow> int \<Rightarrow> cell option" where
  "grid_get g r c = (if 0 \<le> r \<and> r < int (length g) then Some (elem (g ! nat r) c) else None)"

definition grid_set :: "grid \<Rightarrow> int \<Rightarrow> int \<Rightarrow> cell \<Rightarrow> grid option" where
  "grid_set g r c v =
     (if 0 \<le> r \<and> r < int (length g) then Some (g[nat r := array_set (g ! nat r) c v]) else None)"

subsection \<open>canPlaceWord and placeWord\<close>

text \<open>
  \<open>filled g r c\<close> is \<open>grid[r][c] !== null\<close>; \<open>and_then a b\<close> is \<open>a && b\<close>, which reads
  the cell only if \<open>a\<close> holds; \<open>reject_if test rest\<close> is \<open>if (test) return false;\<close>
  followed by the rest of the function.
\<close>

definition filled :: "grid \<Rightarrow> int \<Rightarrow> int \<Rightarrow> bool option" where
  "filled g r c = map_option (\<lambda>x. x \<noteq> Null) (grid_get g r c)"

definition and_then :: "bool \<Rightarrow> bool option \<Rightarrow> bool option" where
  "and_then a b = (if a then b else Some False)"

definition reject_if :: "bool option \<Rightarrow> bool option \<Rightarrow> bool option" where
  "reject_if test rest = (case test of None \<Rightarrow> None | Some True \<Rightarrow> Some False | Some False \<Rightarrow> rest)"

text \<open>The two \<open>for\<close> loops over the letters of the word; \<open>c\<close> is \<open>col + i\<close>, \<open>r\<close> is \<open>row + i\<close>.\<close>

fun across_cells :: "grid \<Rightarrow> int \<Rightarrow> int \<Rightarrow> jsstring \<Rightarrow> bool option" where
  "across_cells g r c [] = Some True"
| "across_cells g r c (ch # rest) =
     (case grid_get g r c of
        None \<Rightarrow> None
      | Some x \<Rightarrow>
          reject_if (Some (x \<noteq> Null \<and> x \<noteq> Letter ch))
            (if x = Null
             then reject_if (and_then (r > 0) (filled g (r - 1) c))
                    (reject_if (and_then (r < int (length g) - 1) (filled g (r + 1) c))
                       (across_cells g r (c + 1) rest))
             else across_cells g r (c + 1) rest))"

fun down_cells :: "grid \<Rightarrow> int \<Rightarrow> int \<Rightarrow> int \<Rightarrow> jsstring \<Rightarrow> bool option" where
  "down_cells g width r c [] = Some True"
| "down_cells g width r c (ch # rest) =
     (case grid_get g r c of
        None \<Rightarrow> None
      | Some x \<Rightarrow>
          reject_if (Some (x \<noteq> Null \<and> x \<noteq> Letter ch))
            (if x = Null
             then reject_if (and_then (c > 0) (filled g r (c - 1)))
                    (reject_if (and_then (c < width - 1) (filled g r (c + 1)))
                       (down_cells g width (r + 1) c rest))
             else down_cells g width (r + 1) c rest))"

datatype direction = Across | Down

definition canPlaceWord :: "grid \<Rightarrow> jsstring \<Rightarrow> int \<Rightarrow> int \<Rightarrow> direction \<Rightarrow> bool option" where
  "canPlaceWord g word r c d =
     (case g of
        [] \<Rightarrow> None
      | row0 # _ \<Rightarrow>
          (let height = int (length g);
               width = int (js_length row0);
               len = int (length word)
           in case d of
                Across \<Rightarrow>
                  reject_if (Some (c + len > width))
                    (reject_if (and_then (c > 0) (filled g r (c - 1)))
                       (reject_if (and_then (c + len < width) (filled g r (c + len)))
                          (across_cells g r c word)))
              | Down \<Rightarrow>
                  reject_if (Some (r + len > height))
                    (reject_if (and_then (r > 0) (filled g (r - 1) c))
                       (reject_if (and_then (r + len < height) (filled g (r + len) c))
                          (down_cells g width r c word)))))"

fun placeWord :: "grid \<Rightarrow> jsstring \<Rightarrow> int \<Rightarrow> int \<Rightarrow> direction \<Rightarrow> grid option" where
  "placeWord g [] r c d = Some g"
| "placeWord g (ch # rest) r c d =
     (case grid_set g r c (Letter ch) of
        None \<Rightarrow> None
      | Some g' \<Rightarrow>
          (case d of
             Across \<Rightarrow> placeWord g' rest r (c + 1) d
           | Down \<Rightarrow> placeWord g' rest (r + 1) c d))"

subsection \<open>generateGridLayout\<close>

record word_entry =
  answer :: jsstring
  clue :: jsstring

record placed_word = word_entry +
  row :: int
  col :: int
  direction :: direction

text \<open>\<open>{ ...wordObj, row, col, direction }\<close>\<close>

definition place :: "word_entry \<Rightarrow> int \<Rightarrow> int \<Rightarrow> direction \<Rightarrow> placed_word" where
  "place wordObj r c d = \<lparr>answer = answer wordObj, clue = clue wordObj, row = r, col = c, direction = d\<rparr>"

text \<open>
  The state of the loops: the grid, the list \<open>placedWords\<close> and the flag \<open>placed\<close> of the
  word at hand.
\<close>

record layout =
  grid :: grid
  placedWords :: "placed_word list"
  placed :: bool

text \<open>
  The innermost block: \<open>if (canPlaceWord(...)) { placeWord(...); placedWords.push(...);
  placed = true; }\<close>
\<close>

definition try_place :: "word_entry \<Rightarrow> int \<Rightarrow> int \<Rightarrow> direction \<Rightarrow> layout \<Rightarrow> layout option" where
  "try_place wordObj r c d st =
     (case canPlaceWord (grid st) (answer wordObj) r c d of
        None \<Rightarrow> None
      | Some False \<Rightarrow> Some st
      | Some True \<Rightarrow>
          (case placeWord (grid st) (answer wordObj) r c d of
             None \<Rightarrow> None
           | Some g' \<Rightarrow>
               Some \<lparr>grid = g', placedWords = placedWords st @ [place wordObj r c d], placed = True\<rparr>))"

text \<open>The body of \<open>if (placedWord.answer[k] === char)\<close>: the perpendicular placement.\<close>

definition try_intersection ::
  "nat \<Rightarrow> word_entry \<Rightarrow> placed_word \<Rightarrow> nat \<Rightarrow> nat \<Rightarrow> layout \<Rightarrow> layout option" where
  "try_intersection sz wordObj placedWord j k st =
     (if direction placedWord = Across
      then (let startRow = row placedWord - int j;
                startCol = col placedWord + int k
            in if startRow \<ge> 0 \<and> startRow + int (length (answer wordObj)) \<le> int sz
               then try_place wordObj startRow startCol Down st
               else Some st)
      else (let startRow = row placedWord + int k;
                startCol = col placedWord - int j
            in if startCol \<ge> 0 \<and> startCol + int (length (answer wordObj)) \<le> int sz
               then try_place wordObj startRow startCol Across st
               else Some st))"

text \<open>
  The loop over \<open>k\<close> has no \<open>break\<close>; the loops over \<open>j\<close> and over \<open>placedWords\<close>
  leave when \<open>placed\<close> is set.  The \<open>for ... of\<close> loop runs over the words that are in
  \<open>placedWords\<close> when it starts: a word pushed during the loop is pushed together with
  \<open>placed = true\<close>, so the loop leaves before it looks at it.
\<close>

fun k_loop ::
  "nat \<Rightarrow> word_entry \<Rightarrow> placed_word \<Rightarrow> nat \<Rightarrow> nat list \<Rightarrow> layout \<Rightarrow> layout option" where
  "k_loop sz wordObj placedWord j [] st = Some st"
| "k_loop sz wordObj placedWord j (k # ks) st =
     (if answer placedWord ! k = answer wordObj ! j
      then (case try_intersection sz wordObj placedWord j k st of
              None \<Rightarrow> None
            | Some st' \<Rightarrow> k_loop sz wordObj placedWord j ks st')
      else k_loop sz wordObj placedWord j ks st)"

fun j_loop :: "nat \<Rightarrow> word_entry \<Rightarrow> placed_word \<Rightarrow> nat list \<Rightarrow> layout \<Rightarrow> layout option" where
  "j_loop sz wordObj placedWord [] st = Some st"
| "j_loop sz wordObj placedWord (j # rest) st =
     (if placed st then Some st
      else (case k_loop sz wordObj placedWord j [0..<length (answer placedWord)] st of
              None \<Rightarrow> None
            | Some st' \<Rightarrow> j_loop sz wordObj placedWord rest st'))"

fun placed_loop :: "nat \<Rightarrow> word_entry \<Rightarrow> placed_word list \<Rightarrow> layout \<Rightarrow> layout option" where
  "placed_loop sz wordObj [] st = Some st"
| "placed_loop sz wordObj (placedWord # rest) st =
     (if placed st then Some st
      else (case j_loop sz wordObj placedWord [0..<length (answer wordObj)] st of
              None \<Rightarrow> None
            | Some st' \<Rightarrow> placed_loop sz wordObj rest st'))"

text \<open>One round of the loop over \<open>remaining\<close>, and one pass.\<close>

definition place_remaining :: "nat \<Rightarrow> word_entry \<Rightarrow> layout \<Rightarrow> layout option" where
  "place_remaining sz wordObj st =
     (if \<exists>w \<in> set (placedWords st). answer w = answer wordObj then Some st
      else placed_loop sz wordObj (placedWords st) (st\<lparr>placed := False\<rparr>))"

fun pass_loop :: "nat \<Rightarrow> word_entry list \<Rightarrow> layout \<Rightarrow> layout option" where
  "pass_loop sz [] st = Some st"
| "pass_loop sz (wordObj # rest) st =
     (case place_remaining sz wordObj st of
        None \<Rightarrow> None
      | Some st' \<Rightarrow> pass_loop sz rest st')"

text \<open>
  \<open>[...wordsData].sort((a, b) => b.answer.length - a.answer.length)\<close>: a stable sort,
  longest answer first.
\<close>

definition sortedWords :: "word_entry list \<Rightarrow> word_entry list" where
  "sortedWords wordsData = sort_key (\<lambda>w. - int (length (answer w))) wordsData"

definition first_placed :: "word_entry \<Rightarrow> nat \<Rightarrow> placed_word" where
  "first_placed first sz =
     place first (int sz div 2) ((int sz - int (length (answer first))) div 2) Across"

definition generateGridLayout :: "word_entry list \<Rightarrow> nat \<Rightarrow> placed_word list option" where
  "generateGridLayout wordsData sz =
     (case sortedWords wordsData of
        [] \<Rightarrow> Some []
      | first # remaining \<Rightarrow>
          (case placeWord (new_grid sz) (answer first) (int sz div 2)
                  ((int sz - int (length (answer first))) div 2) Across of
             None \<Rightarrow> None
           | Some g \<Rightarrow>
               (case pass_loop sz remaining
                       \<lparr>grid = g, placedWords = [first_placed first sz], placed = False\<rparr> of
                  None \<Rightarrow> None
                | Some st1 \<Rightarrow>
                    (case pass_loop sz remaining st1 of
                       None \<Rightarrow> None
                     | Some st2 \<Rightarrow> Some (placedWords st2)))))"

subsection \<open>What the claims say about a layout\<close>

text \<open>
  The cell of the letter at index \<open>i\<close> of a placed word (row, column); index \<open>-1\<close> is the
  cell before its start and index \<open>length\<close> the cell after its end, along its axis.
\<close>

definition cell_at :: "placed_word \<Rightarrow> int \<Rightarrow> int \<times> int" where
  "cell_at w i = (if direction w = Across then (row w, col w + i) else (row w + i, col w))"

definition letter_cells :: "placed_word \<Rightarrow> (int \<times> int) list" where
  "letter_cells w = map (\<lambda>i. cell_at w (int i)) [0..<length (answer w)]"

definition no_conflict :: "placed_word list \<Rightarrow> bool" where
  "no_conflict out \<longleftrightarrow>
     (\<forall>w \<in> set out. \<forall>w' \<in> set out.
        \<forall>i \<in> {0..<length (answer w)}. \<forall>i' \<in> {0..<length (answer w')}.
          cell_at w (int i) = cell_at w' (int i') \<longrightarrow> answer w ! i = answer w' ! i')"

text \<open>
  The claim as the specification states it: the cell before the start and the cell after
  the end of a placed word are no letter cells of a word of the same direction.
\<close>

definition ends_free :: "placed_word list \<Rightarrow> bool" where
  "ends_free out \<longleftrightarrow>
     (\<forall>w \<in> set out. \<forall>w' \<in> set out. direction w' = direction w \<longrightarrow>
        cell_at w (- 1) \<notin> set (letter_cells w') \<and>
        cell_at w (int (length (answer w))) \<notin> set (letter_cells w'))"

text \<open>
  What holds: no word starts in the cell after the end of a word of the same direction,
  and none ends in the cell before its start.
\<close>

definition no_abutting :: "placed_word list \<Rightarrow> bool" where
  "no_abutting out \<longleftrightarrow>
     (\<forall>w \<in> set out. \<forall>w' \<in> set out.
        direction w' = direction w \<longrightarrow> answer w \<noteq> [] \<longrightarrow> answer w' \<noteq> [] \<longrightarrow>
          cell_at w' 0 \<noteq> cell_at w (int (length (answer w))) \<and>
          cell_at w' (int (length (answer w')) - 1) \<noteq> cell_at w (- 1))"


subsection \<open>The cells of the grid and the commits of the layout\<close>

text \<open>
  \<open>cellv\<close> reads a cell of the grid, with \<open>undefined\<close> for a row that is not there;
  \<open>pos\<close> is the cell at index \<open>i\<close> of a word that starts at a row and a column.
\<close>

definition cellv :: "grid \<Rightarrow> int \<times> int \<Rightarrow> cell" where
  "cellv g x = (if 0 \<le> fst x \<and> fst x < int (length g) then elem (g ! nat (fst x)) (snd x) else Undefined)"

definition pos :: "direction \<Rightarrow> int \<Rightarrow> int \<Rightarrow> int \<Rightarrow> int \<times> int" where
  "pos d r c i = (case d of Across \<Rightarrow> (r, c + i) | Down \<Rightarrow> (r + i, c))"

text \<open>
  A commit is what the innermost block of \<open>generateGridLayout\<close> does when
  \<open>canPlaceWord\<close> answers \<open>true\<close>: the word crosses a word that is placed, at a letter
  they share, it passed the bounds check of the loop, and the grid and \<open>placedWords\<close>
  are updated.  \<open>commits\<close> is a sequence of commits; the flag \<open>placed\<close> is not part of it.
\<close>

definition crossing :: "nat \<Rightarrow> placed_word \<Rightarrow> jsstring \<Rightarrow> int \<Rightarrow> int \<Rightarrow> direction \<Rightarrow> bool" where
  "crossing sz pw word r c d \<longleftrightarrow>
     (\<exists>j k. j < length word \<and> k < length (answer pw) \<and>
        (if direction pw = Across
         then d = Down \<and> r = row pw - int j \<and> c = col pw + int k \<and>
              0 \<le> r \<and> r + int (length word) \<le> int sz
         else d = Across \<and> r = row pw + int k \<and> c = col pw - int j \<and>
              0 \<le> c \<and> c + int (length word) \<le> int sz))"

definition commit :: "nat \<Rightarrow> layout \<Rightarrow> word_entry \<Rightarrow> int \<Rightarrow> int \<Rightarrow> direction \<Rightarrow> layout \<Rightarrow> bool" where
  "commit sz st wordObj r c d st' \<longleftrightarrow>
     canPlaceWord (grid st) (answer wordObj) r c d = Some True \<and>
     placeWord (grid st) (answer wordObj) r c d = Some (grid st') \<and>
     placedWords st' = placedWords st @ [place wordObj r c d] \<and>
     (\<exists>pw \<in> set (placedWords st). crossing sz pw (answer wordObj) r c d)"

inductive commits :: "nat \<Rightarrow> layout \<Rightarrow> layout \<Rightarrow> bool" where
  same: "grid st' = grid st \<Longrightarrow> placedWords st' = placedWords st \<Longrightarrow> commits sz st st'"
| more: "commits sz st st1 \<Longrightarrow> commit sz st1 wordObj r c d st2 \<Longrightarrow> commits sz st st2"

text \<open>
  What holds of the state all along.  The first word is across, at the row and the column
  of the formula; every later word has a letter and passed the bounds check of the loop; the
  grid has \<open>size\<close> rows and its first row is at least \<open>size\<close> long; every letter of every
  placed word is in its cell of the grid; and no two words of one direction abut.
\<close>

definition later_ok :: "nat \<Rightarrow> placed_word \<Rightarrow> bool" where
  "later_ok sz pw \<longleftrightarrow>
     answer pw \<noteq> [] \<and>
     (if direction pw = Down
      then 0 \<le> row pw \<and> row pw + int (length (answer pw)) \<le> int sz
      else 0 \<le> col pw \<and> col pw + int (length (answer pw)) \<le> int sz \<and>
           0 \<le> row pw \<and> row pw < int sz)"

definition letters_in_grid :: "grid \<Rightarrow> placed_word \<Rightarrow> bool" where
  "letters_in_grid g pw \<longleftrightarrow>
     (\<forall>i < length (answer pw). cellv g (cell_at pw (int i)) = Letter (answer pw ! i))"

definition layout_inv :: "nat \<Rightarrow> placed_word \<Rightarrow> layout \<Rightarrow> bool" where
  "layout_inv sz F st \<longleftrightarrow>
     length (grid st) = sz \<and>
     (0 < sz \<longrightarrow> sz \<le> js_length (grid st ! 0)) \<and>
     direction F = Across \<and> row F = int sz div 2 \<and>
     col F = (int sz - int (length (answer F))) div 2 \<and>
     (answer F \<noteq> [] \<longrightarrow> 0 < sz) \<and>
     (\<exists>rest. placedWords st = F # rest \<and> (\<forall>pw \<in> set rest. later_ok sz pw)) \<and>
     (\<forall>pw \<in> set (placedWords st). letters_in_grid (grid st) pw) \<and>
     no_abutting (placedWords st)"

section \<open>Properties of the seeded generator\<close>

lemma round_double_exact: "\<bar>x\<bar> < 2 ^ 53 \<Longrightarrow> round_double x = x"
proof -
  assume a: "\<bar>x\<bar> < 2 ^ 53"
  have "bitlen \<bar>x\<bar> \<le> 53"
  proof (cases "\<bar>x\<bar> > 0")
    case True
    from bitlen_bounds[OF True] have "2 ^ nat (bitlen \<bar>x\<bar> - 1) < (2::int) ^ 53" using a by linarith
    then have "nat (bitlen \<bar>x\<bar> - 1) < 53" by (rule power_less_imp_less_exp[rotated]) simp
    then show ?thesis by linarith
  next
    case False
    then have "x = 0" by simp
    then show ?thesis by simp
  qed
  then have "nat (bitlen \<bar>x\<bar> - 53) = 0" by simp
  then show ?thesis by (simp add: round_double_def Let_def mult_sgn_abs)
qed

lemma to_int32_sint [simp]: "to_int32 (sint w) = w"
  by (simp add: to_int32_def)

lemma to_int32_uint [simp]: "to_int32 (uint w) = w"
  by (simp add: to_int32_def)

lemma sint32_bounds: "- (2 ^ 31) \<le> sint (w::u32) \<and> sint w < 2 ^ 31"
  using sint_ge[of w] sint_lt[of w] by simp

lemma mix_spec: "mix t = uint (spec_mix (to_int32 t))"
proof -
  define a where "a = imul (js_xor t (js_ushr t 15)) (js_or t 1)"
  define b where "b = imul (js_xor a (js_ushr a 7)) (js_or a 61)"
  have ba: "- (2 ^ 31) \<le> a \<and> a < 2 ^ 31"
    unfolding a_def imul_def by (rule sint32_bounds)
  have bb: "- (2 ^ 31) \<le> b \<and> b < 2 ^ 31"
    unfolding b_def imul_def by (rule sint32_bounds)
  have "\<bar>a + b\<bar> < 2 ^ 53"
    using ba bb by (simp add: abs_less_iff)
  then have ab: "js_add a b = a + b" by (simp add: js_add_def round_double_exact)
  have A: "to_int32 a = (to_int32 t XOR drop_bit 15 (to_int32 t)) * (to_int32 t OR 1)"
    by (simp add: a_def imul_def js_xor_def js_ushr_def js_or_def) (simp add: to_int32_def)
  have B: "to_int32 b = (to_int32 a XOR drop_bit 7 (to_int32 a)) * (to_int32 a OR 61)"
    by (simp add: b_def imul_def js_xor_def js_ushr_def js_or_def) (simp add: to_int32_def)
  have S: "to_int32 (a + b) = to_int32 a + to_int32 b"
    by (simp add: to_int32_def)
  show ?thesis
    unfolding mix_def Let_def a_def[symmetric] b_def[symmetric] ab
    by (simp add: js_xor_def js_ushr_def S A B spec_mix_def Let_def)
qed


lemma to_int32_hash_loop: "to_int32 (hash_loop h s) = spec_hash (to_int32 h) s"
proof (induction s arbitrary: h)
  case Nil
  show ?case by simp
next
  case (Cons ch rest)
  have "to_int32 (uint ch) = ucast ch"
    by (simp add: to_int32_def)
  then show ?case
    by (simp add: Cons.IH imul_def js_xor_def) (simp add: to_int32_def)
qed

lemma to_int32_seed_of: "to_int32 (seed_of s) = spec_hash 2166136261 s"
  by (simp add: seed_of_def to_int32_hash_loop js_ushr_def) (simp add: to_int32_def)

lemma hash_loop_bounds:
  "- (2 ^ 31) \<le> h \<and> h < 2 ^ 32 \<Longrightarrow> - (2 ^ 31) \<le> hash_loop h s \<and> hash_loop h s < 2 ^ 32"
proof (induction s arbitrary: h)
  case Nil
  then show ?case by simp
next
  case (Cons ch rest)
  have "- (2 ^ 31) \<le> imul (js_xor h (uint ch)) 16777619 \<and> imul (js_xor h (uint ch)) 16777619 < 2 ^ 32"
    using sint32_bounds[of "to_int32 (js_xor h (uint ch)) * to_int32 16777619"]
    unfolding imul_def by auto
  then show ?case using Cons.IH by simp
qed

lemma seed_of_bounds: "- (2 ^ 31) \<le> seed_of s \<and> seed_of s < 2 ^ 32"
  unfolding seed_of_def by (rule hash_loop_bounds) (simp add: js_ushr_def to_int32_def)

lemma seed_after_exact:
  "\<bar>s\<bar> + int n * 0x6D2B79F5 < 2 ^ 53 \<Longrightarrow> seed_after n s = s + int n * 0x6D2B79F5"
proof (induction n arbitrary: s)
  case 0
  show ?case by simp
next
  case (Suc n)
  have "\<bar>s + 0x6D2B79F5\<bar> < 2 ^ 53" using Suc.prems by simp
  then have step: "js_add s 0x6D2B79F5 = s + 0x6D2B79F5"
    by (simp add: js_add_def round_double_exact)
  have "\<bar>s + 0x6D2B79F5\<bar> + int n * 0x6D2B79F5 < 2 ^ 53" using Suc.prems by simp
  from Suc.IH[OF this] show ?case by (simp add: rng_call_def Let_def step algebra_simps)
qed

lemma spec_state_closed: "spec_state s n = spec_hash 2166136261 s + of_nat n * 0x6D2B79F5"
  by (induction n) (simp_all add: algebra_simps)

lemma nth_output_spec:
  assumes "n < 4917756"
  shows "nth_output s n = spec_output s n"
proof -
  define N where "N = int n"
  have "N \<le> 4917755" using assms by (simp add: N_def)
  then have "N * 1831565813 \<le> 4917755 * (1831565813::int)"
    by (rule mult_right_mono) simp
  moreover define P where "P = N * 1831565813"
  ultimately have P: "P \<le> 9007191934709815" by simp
  have P0: "0 \<le> P" by (simp add: P_def N_def)
  have sb: "- 2147483648 \<le> seed_of s \<and> seed_of s < 4294967296"
    using seed_of_bounds[of s] by simp
  have e1: "int (Suc n) * 0x6D2B79F5 = P + 1831565813" by (simp add: P_def N_def algebra_simps)
  have e0: "int n * 0x6D2B79F5 = P" by (simp add: P_def N_def)
  have "\<bar>seed_of s\<bar> + (P + 1831565813) < 9007199254740992"
    using P P0 sb by linarith
  then have b: "\<bar>seed_of s\<bar> + int (Suc n) * 0x6D2B79F5 < 2 ^ 53"
    unfolding e1 by simp
  have "\<bar>seed_of s\<bar> + P < 9007199254740992"
    using P P0 sb by linarith
  then have b0: "\<bar>seed_of s\<bar> + int n * 0x6D2B79F5 < 2 ^ 53"
    unfolding e0 by simp
  have sa: "seed_after n (seed_of s) = seed_of s + int n * 0x6D2B79F5"
    by (rule seed_after_exact[OF b0])
  have "\<bar>seed_of s + P + 1831565813\<bar> < 9007199254740992"
    using P P0 sb by linarith
  then have "\<bar>seed_of s + int n * 0x6D2B79F5 + 0x6D2B79F5\<bar> < 2 ^ 53"
    unfolding e0 by simp
  then have step: "js_add (seed_of s + int n * 0x6D2B79F5) 0x6D2B79F5 = seed_of s + int (Suc n) * 0x6D2B79F5"
    by (simp add: js_add_def round_double_exact algebra_simps)
  have w: "to_int32 (seed_of s + int (Suc n) * 0x6D2B79F5) = spec_state s (Suc n)"
    unfolding spec_state_closed to_int32_seed_of[symmetric] by (simp add: to_int32_def)
  show ?thesis
    unfolding nth_output_def spec_output_def sa rng_call_def Let_def fst_conv step mix_spec w
    by simp
qed

lemma rng_call_range: "0 \<le> fst (rng_call s) \<and> fst (rng_call s) < 1"
proof -
  define m where "m = mix (js_add s 0x6D2B79F5)"
  have "0 \<le> m \<and> m < 2 ^ 32"
    using uint_bounded[of "spec_mix (to_int32 (js_add s 0x6D2B79F5))"]
    by (simp add: m_def mix_spec)
  then have "0 \<le> real_of_int m \<and> real_of_int m < 4294967296" by simp
  then show ?thesis
    by (simp add: rng_call_def Let_def m_def[symmetric])
qed


lemma call_rng_other: "g \<noteq> g' \<Longrightarrow> seed_var (snd (call_rng g' hp)) g = seed_var hp g"
  by (simp add: call_rng_def split: prod.splits)

lemma call_rng_same:
  "seed_var (snd (call_rng g hp)) g = snd (rng_call (seed_var hp g)) \<and>
   fst (call_rng g hp) = fst (rng_call (seed_var hp g))"
  by (simp add: call_rng_def split: prod.splits)

lemma outputs_of_run_calls:
  "outputs_of g (run_calls gs hp) = rng_outputs (count_list gs g) (seed_var hp g)"
proof (induction gs arbitrary: hp)
  case Nil
  show ?case by (simp add: outputs_of_def)
next
  case (Cons g' gs)
  obtain x hp' where c: "call_rng g' hp = (x, hp')" by (cases "call_rng g' hp")
  have ih: "outputs_of g (run_calls gs hp') = rng_outputs (count_list gs g) (seed_var hp' g)"
    by (rule Cons.IH)
  show ?case
  proof (cases "g' = g")
    case True
    with c call_rng_same[of g hp] have "seed_var hp' g = snd (rng_call (seed_var hp g))"
      and "x = fst (rng_call (seed_var hp g))" by simp_all
    with ih True c show ?thesis
      by (simp add: outputs_of_def split: prod.splits)
  next
    case False
    with c call_rng_other[of g g' hp] have "seed_var hp' g = seed_var hp g" by simp
    with ih False c show ?thesis
      by (simp add: outputs_of_def)
  qed
qed

lemma length_rng_outputs: "length (rng_outputs n s) = n"
  by (induction n arbitrary: s) (simp_all split: prod.splits)

lemma take_rng_outputs: "N \<le> n \<Longrightarrow> take N (rng_outputs n s) = rng_outputs N s"
proof (induction n arbitrary: N s)
  case 0
  then show ?case by simp
next
  case (Suc n)
  show ?case
  proof (cases N)
    case 0
    then show ?thesis by simp
  next
    case (Suc M)
    with Suc.prems have "M \<le> n" by simp
    from Suc.IH[OF this] Suc show ?thesis by (simp split: prod.splits)
  qed
qed

text \<open>
  Claim C2.  Two closures made by \<open>createSeededRNG\<close> from the same seed string give the
  same outputs: whatever the order in which a program calls them (and any other closure),
  the first \<open>N\<close> outputs of the one are the first \<open>N\<close> outputs of the other, and they
  depend on the seed string only.  The two closures are distinct and share no state.
\<close>

theorem rng_streams_identical:
  assumes "createSeededRNG seedStr hp0 = (g1, hp1)"
    and "createSeededRNG seedStr hp1 = (g2, hp2)"
    and "N \<le> length (outputs_of g1 (run_calls gs hp2))"
    and "N \<le> length (outputs_of g2 (run_calls gs hp2))"
  shows "g1 \<noteq> g2 \<and>
         take N (outputs_of g1 (run_calls gs hp2)) = take N (outputs_of g2 (run_calls gs hp2)) \<and>
         take N (outputs_of g1 (run_calls gs hp2)) = rng_outputs N (seed_of seedStr)"
proof -
  from assms(1,2) have ne: "g1 \<noteq> g2"
    and s1: "seed_var hp2 g1 = seed_of seedStr" and s2: "seed_var hp2 g2 = seed_of seedStr"
    by (auto simp: createSeededRNG_def Let_def)
  from assms(3,4) have "N \<le> count_list gs g1" "N \<le> count_list gs g2"
    by (simp_all add: outputs_of_run_calls length_rng_outputs)
  then show ?thesis
    using ne by (simp add: outputs_of_run_calls s1 s2 take_rng_outputs)
qed

text \<open>
  The theorem at the seed \<open>2024-1-1\<close>, two closures made on an empty heap and called in
  the order first, second, second, first, second.
\<close>

theorem rng_streams_identical_witness:
  "take 2 (outputs_of 0 (run_calls [0, 1, 1, 0, 1]
       (snd (createSeededRNG (js ''2024-1-1'')
          (snd (createSeededRNG (js ''2024-1-1'') \<lparr>seed_var = (\<lambda>_. 0), next_closure = 0\<rparr>))))))
   = take 2 (outputs_of 1 (run_calls [0, 1, 1, 0, 1]
       (snd (createSeededRNG (js ''2024-1-1'')
          (snd (createSeededRNG (js ''2024-1-1'') \<lparr>seed_var = (\<lambda>_. 0), next_closure = 0\<rparr>))))))"
proof -
  let ?hp0 = "\<lparr>seed_var = (\<lambda>_. 0), next_closure = 0\<rparr>"
  let ?hp1 = "snd (createSeededRNG (js ''2024-1-1'') ?hp0)"
  let ?hp2 = "snd (createSeededRNG (js ''2024-1-1'') ?hp1)"
  have a: "createSeededRNG (js ''2024-1-1'') ?hp0 = (0, ?hp1)"
    by (simp add: createSeededRNG_def Let_def)
  have b: "createSeededRNG (js ''2024-1-1'') ?hp1 = (1, ?hp2)"
    by (simp add: createSeededRNG_def Let_def)
  have c: "2 \<le> length (outputs_of 0 (run_calls [0, 1, 1, 0, 1] ?hp2))"
    by (simp only: outputs_of_run_calls length_rng_outputs) simp
  have d: "2 \<le> length (outputs_of 1 (run_calls [0, 1, 1, 0, 1] ?hp2))"
    by (simp only: outputs_of_run_calls length_rng_outputs) simp
  from rng_streams_identical[OF a b c d] show ?thesis by simp
qed

lemma b0: "spec_state [] 4917758 = 340802523"
proof -
  have "spec_state [] 4917758 = 2166136261 + 4917758 * 0x6D2B79F5"
    unfolding spec_state_closed by (simp only: spec_hash.simps of_nat_numeral)
  also have "\<dots> = 340802523" by simp
  finally show ?thesis .
qed

section \<open>Properties of the Sudoku generator\<close>

lemma rng_index_le: "nat \<lfloor>fst (rng_call s) * real (Suc i)\<rfloor> \<le> i"
proof -
  have r: "0 \<le> fst (rng_call s)" "fst (rng_call s) < 1" using rng_call_range[of s] by simp_all
  then have "fst (rng_call s) * real (Suc i) < real (Suc i)" by simp
  then have "\<lfloor>fst (rng_call s) * real (Suc i)\<rfloor> < int (Suc i)" by (simp add: floor_less_iff)
  then show ?thesis by simp
qed

lemma shuffle_from_mset:
  "k < length array \<Longrightarrow> mset (fst (shuffle_from k array s)) = mset array"
proof (induction k arbitrary: array s)
  case 0
  show ?case by simp
next
  case (Suc k)
  obtain x s' where c: "rng_call s = (x, s')" by (cases "rng_call s")
  define j where "j = nat \<lfloor>x * real (Suc k + 1)\<rfloor>"
  have "j \<le> Suc k" using rng_index_le[of s "Suc k"] c by (simp add: j_def)
  with Suc.prems have jl: "j < length array" by simp
  have sw: "mset (array[Suc k := array ! j, j := array ! Suc k]) = mset array"
    using mset_swap[of j array "Suc k"] jl Suc.prems by simp
  have "k < length (array[Suc k := array ! j, j := array ! Suc k])" using Suc.prems by simp
  from Suc.IH[OF this, of s'] sw show ?case
    by (simp add: c j_def Let_def)
qed

lemma shuffle_mset: "mset (fst (shuffle array s)) = mset array"
proof (cases array)
  case Nil
  then show ?thesis by (simp add: shuffle_def)
next
  case (Cons a as)
  then have "length array - 1 < length array" by simp
  then show ?thesis unfolding shuffle_def by (rule shuffle_from_mset)
qed

lemma shuffle_length: "length (fst (shuffle array s)) = length array"
  using shuffle_mset[of array s] by (rule mset_eq_length)

lemma shuffle_set: "set (fst (shuffle array s)) = set array"
  using shuffle_mset[of array s] by (rule mset_eq_setD)

lemma list3: "length xs = 3 \<Longrightarrow> \<exists>a b c. xs = [a, b, c]"
  by (auto simp: numeral_eq_Suc length_Suc_conv)

lemma list9: "length xs = 9 \<Longrightarrow> \<exists>a b c d e f g h i. xs = [a, b, c, d, e, f, g, h, i]"
  by (auto simp: numeral_eq_Suc length_Suc_conv)

lemma each_digit_once_iff:
  assumes "length cells = 9"
  shows "each_digit_once cells \<longleftrightarrow> mset cells = digits"
proof
  assume "mset cells = digits"
  then have "\<And>d. count_list cells d = count digits d" by (metis count_mset)
  then show "each_digit_once cells"
    by (auto simp: each_digit_once_def digits_def)
next
  assume e: "each_digit_once cells"
  have "digits \<subseteq># mset cells"
  proof (rule mset_subset_eqI)
    fix a
    show "count digits a \<le> count (mset cells) a"
    proof (cases "a \<in> {1..9}")
      case True
      with e have "count (mset cells) a = 1" by (simp add: each_digit_once_def count_mset)
      moreover from True have "count digits a = 1" by (auto simp: digits_def)
      ultimately show ?thesis by simp
    next
      case False
      then have "count digits a = 0" by (auto simp: digits_def)
      then show ?thesis by simp
    qed
  qed
  moreover have "size digits = size (mset cells)" using assms by (simp add: digits_def)
  ultimately show "mset cells = digits"
    by (metis mset_subset_size subset_mset.le_neq_trans nat_neq_iff)
qed

lemma length_band_cells:
  "\<forall>row \<in> set B. length (f row) = 3 \<Longrightarrow> length (concat (map f B)) = 3 * length B"
  by (induction B) simp_all

lemma length_box:
  assumes "length g = 9" "\<forall>row \<in> set g. length row = 9" "br < 3" "bc < 3"
  shows "length (box g br bc) = 9"
proof -
  let ?B = "take 3 (drop (3 * br) g)"
  have "length ?B = 3" using assms(1,3) by simp
  moreover have "\<forall>row \<in> set ?B. length (take 3 (drop (3 * bc) row)) = 3"
  proof
    fix row assume "row \<in> set ?B"
    then have "row \<in> set g" by (meson in_set_takeD in_set_dropD)
    with assms(2,4) show "length (take 3 (drop (3 * bc) row)) = 3" by simp
  qed
  ultimately show ?thesis
    unfolding box_def using length_band_cells[of ?B "\<lambda>row. take 3 (drop (3 * bc) row)"] by simp
qed

lemma mset_band_cells:
  "mset (concat (map (\<lambda>row. take 3 (drop (3 * bc) row)) B)) = band_box bc (mset B)"
  by (induction B) (simp_all add: band_box_def)

lemma valid_solution_mset:
  "valid_solution g \<longleftrightarrow>
     length g = 9 \<and> (\<forall>row \<in> set g. mset row = digits) \<and>
     (\<forall>c \<in> {0..<9}. image_mset (\<lambda>row. row ! c) (mset g) = digits) \<and>
     (\<forall>br \<in> {0..<3}. \<forall>bc \<in> {0..<3}. band_box bc (mset (take 3 (drop (3 * br) g))) = digits)"
  (is "?L \<longleftrightarrow> ?R")
proof
  assume v: ?L
  then have l: "length g = 9" and rl: "\<forall>row \<in> set g. length row = 9"
    by (simp_all add: valid_solution_def)
  have rows: "\<forall>row \<in> set g. mset row = digits"
  proof
    fix row assume a: "row \<in> set g"
    then obtain r where "r < 9" "g ! r = row" using l by (metis in_set_conv_nth)
    with v have "each_digit_once row" by (auto simp: valid_solution_def)
    with rl a show "mset row = digits" by (simp add: each_digit_once_iff)
  qed
  have cols: "\<forall>c \<in> {0..<9}. image_mset (\<lambda>row. row ! c) (mset g) = digits"
  proof
    fix c :: nat assume "c \<in> {0..<9}"
    with v have "each_digit_once (column g c)" by (simp add: valid_solution_def)
    moreover have "length (column g c) = 9" using l by (simp add: column_def)
    ultimately have "mset (column g c) = digits" by (simp add: each_digit_once_iff)
    then show "image_mset (\<lambda>row. row ! c) (mset g) = digits" by (simp add: column_def)
  qed
  have boxes: "\<forall>br \<in> {0..<3}. \<forall>bc \<in> {0..<3}. band_box bc (mset (take 3 (drop (3 * br) g))) = digits"
  proof (intro ballI)
    fix br bc :: nat assume b: "br \<in> {0..<3}" "bc \<in> {0..<3}"
    with v have "each_digit_once (box g br bc)" by (simp add: valid_solution_def)
    moreover have "length (box g br bc) = 9" using length_box[OF l rl] b by simp
    ultimately have "mset (box g br bc) = digits" by (simp add: each_digit_once_iff)
    then show "band_box bc (mset (take 3 (drop (3 * br) g))) = digits"
      by (simp add: box_def mset_band_cells)
  qed
  from l rows cols boxes show ?R by simp
next
  assume r: ?R
  then have l: "length g = 9" and rows: "\<forall>row \<in> set g. mset row = digits" by simp_all
  have rl: "\<forall>row \<in> set g. length row = 9"
  proof
    fix row assume "row \<in> set g"
    with rows have "mset row = digits" by simp
    then have "size (mset row) = size digits" by simp
    then show "length row = 9" by (simp add: digits_def)
  qed
  have a: "\<forall>r \<in> {0..<9}. each_digit_once (g ! r)"
  proof
    fix k :: nat assume "k \<in> {0..<9}"
    then have "g ! k \<in> set g" using l by simp
    with rows rl show "each_digit_once (g ! k)" by (simp add: each_digit_once_iff)
  qed
  have b: "\<forall>c \<in> {0..<9}. each_digit_once (column g c)"
  proof
    fix c :: nat assume "c \<in> {0..<9}"
    with r have "mset (column g c) = digits" by (simp add: column_def)
    moreover have "length (column g c) = 9" using l by (simp add: column_def)
    ultimately show "each_digit_once (column g c)" by (simp add: each_digit_once_iff)
  qed
  have c: "\<forall>br \<in> {0..<3}. \<forall>bc \<in> {0..<3}. each_digit_once (box g br bc)"
  proof (intro ballI)
    fix br bc :: nat assume b: "br \<in> {0..<3}" "bc \<in> {0..<3}"
    with r have "mset (box g br bc) = digits" by (simp add: box_def mset_band_cells)
    moreover have "length (box g br bc) = 9" using length_box[OF l rl] b by simp
    ultimately show "each_digit_once (box g br bc)" by (simp add: each_digit_once_iff)
  qed
  from l rl a b c show ?L by (simp add: valid_solution_def)
qed

lemma ball_less_3: "(\<forall>k \<in> {0..<3::nat}. P k) \<longleftrightarrow> P 0 \<and> P 1 \<and> P 2"
proof -
  have "{0..<3::nat} = {0, 1, 2}" by auto
  then show ?thesis by simp
qed

lemma valid_iff_bands:
  assumes "length A1 = 3" "length A2 = 3" "length A3 = 3"
  shows "valid_solution (A1 @ A2 @ A3) \<longleftrightarrow> bands_ok {#mset A1, mset A2, mset A3#}"
  unfolding valid_solution_mset bands_ok_def ball_less_3[of "\<lambda>br. \<forall>bc \<in> {0..<3}. band_box bc (mset (take 3 (drop (3 * br) (A1 @ A2 @ A3)))) = digits"]
  using assms by (auto simp: ball_Un)

lemma bands_decomp: "length g = 9 \<Longrightarrow> g = take 3 g @ take 3 (drop 3 g) @ take 3 (drop 6 g)"
  by (drule list9) auto

lemma valid_reband:
  assumes v: "valid_solution (A1 @ A2 @ A3)"
    and l: "length A1 = 3" "length A2 = 3" "length A3 = 3"
    and m: "{#mset B1, mset B2, mset B3#} = {#mset A1, mset A2, mset A3#}"
  shows "valid_solution (B1 @ B2 @ B3)"
proof -
  from v l have ok: "bands_ok {#mset B1, mset B2, mset B3#}"
    by (simp add: valid_iff_bands m)
  then have "\<forall>M \<in># {#mset B1, mset B2, mset B3#}. size M = 3"
    unfolding bands_ok_def by blast
  then have "length B1 = 3" "length B2 = 3" "length B3 = 3" by simp_all
  then show ?thesis using ok by (simp add: valid_iff_bands)
qed

lemma valid_band_rows:
  assumes v: "valid_solution g" and b: "b = 0 \<or> b = 3 \<or> b = 6"
    and m: "mset [x, y, z] = mset [g ! b, g ! (b + 1), g ! (b + 2)]"
  shows "valid_solution (g[b := x, b + 1 := y, b + 2 := z])"
proof -
  from v have "length g = 9" by (simp add: valid_solution_def)
  then obtain r0 r1 r2 r3 r4 r5 r6 r7 r8 where g: "g = [r0, r1, r2, r3, r4, r5, r6, r7, r8]"
    using list9 by blast
  have v': "valid_solution ([r0, r1, r2] @ [r3, r4, r5] @ [r6, r7, r8])" using v g by simp
  from b show ?thesis
  proof (elim disjE)
    assume "b = 0"
    with m g have "{#mset [x, y, z], mset [r3, r4, r5], mset [r6, r7, r8]#}
        = {#mset [r0, r1, r2], mset [r3, r4, r5], mset [r6, r7, r8]#}" by simp
    from valid_reband[OF v' _ _ _ this] show ?thesis using g \<open>b = 0\<close> by simp
  next
    assume "b = 3"
    with m g have "{#mset [r0, r1, r2], mset [x, y, z], mset [r6, r7, r8]#}
        = {#mset [r0, r1, r2], mset [r3, r4, r5], mset [r6, r7, r8]#}" by simp
    from valid_reband[OF v' _ _ _ this] show ?thesis using g \<open>b = 3\<close> by simp
  next
    assume "b = 6"
    with m g have "{#mset [r0, r1, r2], mset [r3, r4, r5], mset [x, y, z]#}
        = {#mset [r0, r1, r2], mset [r3, r4, r5], mset [r6, r7, r8]#}" by simp
    from valid_reband[OF v' _ _ _ this] show ?thesis using g \<open>b = 6\<close> by simp
  qed
qed

lemma shuffle_band_valid:
  assumes "valid_solution g" "b = 0 \<or> b = 3 \<or> b = 6"
  shows "valid_solution (fst (shuffle_band b (g, s)))"
proof -
  obtain x s1 where c: "rng_call s = (x, s1)" by (cases "rng_call s")
  let ?rows = "fst (shuffle [g ! b, g ! (b + 1), g ! (b + 2)] s1)"
  have "length ?rows = 3" by (simp add: shuffle_length)
  then obtain p q r where rows: "?rows = [p, q, r]" using list3 by blast
  have "mset [p, q, r] = mset [g ! b, g ! (b + 1), g ! (b + 2)]"
    using shuffle_mset[of "[g ! b, g ! (b + 1), g ! (b + 2)]" s1] rows by simp
  from valid_band_rows[OF assms this] assms(1) rows show ?thesis
    by (simp add: shuffle_band_def c Let_def case_prod_beta)
qed

lemma shuffle_rows_in_bands_valid:
  assumes "valid_solution (fst st)"
  shows "valid_solution (fst (shuffle_rows_in_bands st))"
proof -
  obtain g s where st: "st = (g, s)" by (cases st)
  obtain g1 s1 where a: "shuffle_band 0 (g, s) = (g1, s1)" by (cases "shuffle_band 0 (g, s)")
  obtain g2 s2 where b: "shuffle_band 3 (g1, s1) = (g2, s2)" by (cases "shuffle_band 3 (g1, s1)")
  have "valid_solution g1" using shuffle_band_valid[of g 0 s] assms st a by simp
  then have "valid_solution g2" using shuffle_band_valid[of g1 3 s1] b by simp
  then have "valid_solution (fst (shuffle_band 6 (g2, s2)))" by (rule shuffle_band_valid) simp
  then show ?thesis by (simp add: shuffle_rows_in_bands_def st a b)
qed

lemma swap_bands_valid:
  assumes "valid_solution (fst st)"
  shows "valid_solution (fst (swap_bands st))"
proof -
  obtain g s where st: "st = (g, s)" by (cases st)
  from assms st have l: "length g = 9" by (simp add: valid_solution_def)
  let ?A1 = "take 3 g" and ?A2 = "take 3 (drop 3 g)" and ?A3 = "take 3 (drop 6 g)"
  let ?bands = "fst (shuffle [?A1, ?A2, ?A3] s)"
  have "length ?bands = 3" by (simp add: shuffle_length)
  then obtain X Y Z where bands: "?bands = [X, Y, Z]" using list3 by blast
  have "mset [X, Y, Z] = mset [?A1, ?A2, ?A3]"
    using shuffle_mset[of "[?A1, ?A2, ?A3]" s] bands by simp
  then have "image_mset mset (mset [X, Y, Z]) = image_mset mset (mset [?A1, ?A2, ?A3])" by simp
  then have m: "{#mset X, mset Y, mset Z#} = {#mset ?A1, mset ?A2, mset ?A3#}" by simp
  have v: "valid_solution (?A1 @ ?A2 @ ?A3)" using assms st bands_decomp[OF l] by simp
  have "valid_solution (X @ Y @ Z)"
    by (rule valid_reband[OF v _ _ _ m]) (use l in simp_all)
  then show ?thesis using bands by (simp add: swap_bands_def st case_prod_beta)
qed

lemma take3_drop:
  assumes "length xs = 9" "k < 3"
  shows "take 3 (drop (3 * k) xs) = [xs ! (3 * k), xs ! (3 * k + 1), xs ! (3 * k + 2)]"
proof -
  from assms(1) obtain a b c d e f g h i where "xs = [a, b, c, d, e, f, g, h, i]"
    using list9 by blast
  moreover from assms(2) have "k = 0 \<or> k = 1 \<or> k = 2" by auto
  ultimately show ?thesis by auto
qed

lemma transpose_grid_valid:
  assumes v: "valid_solution g"
  shows "valid_solution (transpose_grid g)"
proof -
  from v have l: "length g = 9" and rl: "\<forall>row \<in> set g. length row = 9"
    by (simp_all add: valid_solution_def)
  from v have rows: "\<forall>row \<in> set g. mset row = digits"
    and cols: "\<forall>c \<in> {0..<9}. image_mset (\<lambda>row. row ! c) (mset g) = digits"
    and boxes: "\<forall>br \<in> {0..<3}. \<forall>bc \<in> {0..<3}. band_box bc (mset (take 3 (drop (3 * br) g))) = digits"
    by (simp_all add: valid_solution_mset)
  have "g ! 0 \<in> set g" using l by simp
  with rl have l0: "length (g ! 0) = 9" by simp
  let ?col = "\<lambda>c. map (\<lambda>row. row ! c) g"
  have T: "transpose_grid g = map ?col [0..<9]" by (simp add: transpose_grid_def l0)
  have r': "\<forall>row \<in> set (transpose_grid g). mset row = digits"
    using cols by (auto simp: T)
  have c': "\<forall>c \<in> {0..<9}. image_mset (\<lambda>row. row ! c) (mset (transpose_grid g)) = digits"
  proof
    fix c :: nat assume c: "c \<in> {0..<9}"
    then have cg: "g ! c \<in> set g" using l by simp
    have "map (\<lambda>row. row ! c) (map ?col [0..<9]) = map (\<lambda>c'. g ! c ! c') [0..<9]"
      using c l by simp
    also have "\<dots> = g ! c" using cg rl map_nth[of "g ! c"] by simp
    finally have "mset (map (\<lambda>row. row ! c) (transpose_grid g)) = mset (g ! c)" by (simp add: T)
    with rows cg show "image_mset (\<lambda>row. row ! c) (mset (transpose_grid g)) = digits" by simp
  qed
  have b': "\<forall>br \<in> {0..<3}. \<forall>bc \<in> {0..<3}.
      band_box bc (mset (take 3 (drop (3 * br) (transpose_grid g)))) = digits"
  proof (intro ballI)
    fix br bc :: nat assume b: "br \<in> {0..<3}" "bc \<in> {0..<3}"
    let ?B = "take 3 (drop (3 * bc) g)"
    have "length ?B = 3" using l b by simp
    then obtain p q r where B: "?B = [p, q, r]" using list3 by blast
    have "set ?B \<subseteq> set g" by (meson in_set_takeD in_set_dropD subsetI)
    with B rl have lp: "length p = 9" "length q = 9" "length r = 9" by auto
    have "take 3 (drop (3 * br) [0..<9]) = [3 * br, 3 * br + 1, 3 * br + 2]"
      using take3_drop[of "[0..<9]" br] b by simp
    then have band: "take 3 (drop (3 * br) (transpose_grid g))
        = [?col (3 * br), ?col (3 * br + 1), ?col (3 * br + 2)]"
      by (simp add: T take_map drop_map)
    have cut: "\<And>k. take 3 (drop (3 * bc) (?col k)) = [p ! k, q ! k, r ! k]"
      using B by (simp add: take_map drop_map)
    have "band_box bc (mset (take 3 (drop (3 * br) (transpose_grid g))))
        = band_box br (mset ?B)"
      unfolding band B
      using b by (simp add: band_box_def cut take3_drop lp)
    with boxes b show "band_box bc (mset (take 3 (drop (3 * br) (transpose_grid g)))) = digits"
      by simp
  qed
  have "length (transpose_grid g) = 9" by (simp add: T)
  with r' c' b' show ?thesis by (simp add: valid_solution_mset)
qed

lemma maybe_transpose_valid:
  "valid_solution (fst st) \<Longrightarrow> valid_solution (fst (maybe_transpose st))"
  by (simp add: maybe_transpose_def case_prod_beta Let_def transpose_grid_valid)

lemma shuffle_cols_in_bands_valid:
  "valid_solution (fst st) \<Longrightarrow> valid_solution (fst (shuffle_cols_in_bands st))"
  using shuffle_rows_in_bands_valid[of "(transpose_grid (fst st), snd st)"]
  by (simp add: shuffle_cols_in_bands_def case_prod_beta Let_def transpose_grid_valid)

lemma baseGrid_valid: "valid_solution baseGrid"
  by code_simp

lemma permute_numbers_valid:
  assumes v: "valid_solution (fst st)"
  shows "valid_solution (fst (permute_numbers st))"
proof -
  obtain g s where st: "st = (g, s)" by (cases st)
  let ?nums = "[1, 2, 3, 4, 5, 6, 7, 8, 9] :: int list"
  let ?permuted = "fst (shuffle ?nums s)"
  define f where "f = map_get (map_of (zip ?nums ?permuted))"
  have g': "fst (permute_numbers st) = map (map f) g"
    by (simp add: permute_numbers_def st case_prod_beta Let_def f_def)
  have lp: "length ?permuted = 9" by (simp add: shuffle_length)
  have mp: "mset ?permuted = digits" using shuffle_mset[of ?nums s] by (simp add: digits_def)
  have "map f ?nums = ?permuted"
  proof (rule nth_equalityI)
    show "length (map f ?nums) = length ?permuted" using lp by simp
  next
    fix i assume "i < length (map f ?nums)"
    then have i: "i < 9" by simp
    then have "map_of (zip ?nums ?permuted) (?nums ! i) = Some (?permuted ! i)"
      by (intro map_of_zip_nth) (simp_all add: lp)
    then have "f (?nums ! i) = ?permuted ! i" by (simp add: f_def map_get_def)
    with i show "map f ?nums ! i = ?permuted ! i" by (simp del: list.map)
  qed
  then have "mset (map f ?nums) = digits" using mp by simp
  then have fd: "image_mset f digits = digits" by (simp add: digits_def)
  from v st have l: "length g = 9" and rl: "\<forall>row \<in> set g. length row = 9"
    by (simp_all add: valid_solution_def)
  from v st have rows: "\<forall>row \<in> set g. mset row = digits"
    and cols: "\<forall>c \<in> {0..<9}. image_mset (\<lambda>row. row ! c) (mset g) = digits"
    and boxes: "\<forall>br \<in> {0..<3}. \<forall>bc \<in> {0..<3}. band_box bc (mset (take 3 (drop (3 * br) g))) = digits"
    by (simp_all add: valid_solution_mset)
  have r': "\<forall>row \<in> set (map (map f) g). mset row = digits"
    using rows fd by auto
  have c': "\<forall>c \<in> {0..<9}. image_mset (\<lambda>row. row ! c) (mset (map (map f) g)) = digits"
  proof
    fix c :: nat assume c: "c \<in> {0..<9}"
    have "image_mset (\<lambda>row. row ! c) (mset (map (map f) g)) = image_mset (\<lambda>row. f (row ! c)) (mset g)"
      using rl c by (auto simp: multiset.map_comp comp_def intro!: image_mset_cong)
    also have "\<dots> = image_mset f (image_mset (\<lambda>row. row ! c) (mset g))"
      by (simp add: multiset.map_comp comp_def)
    also have "\<dots> = image_mset f digits" using cols c by simp
    finally show "image_mset (\<lambda>row. row ! c) (mset (map (map f) g)) = digits" using fd by simp
  qed
  have b': "\<forall>br \<in> {0..<3}. \<forall>bc \<in> {0..<3}.
      band_box bc (mset (take 3 (drop (3 * br) (map (map f) g)))) = digits"
  proof (intro ballI)
    fix br bc :: nat assume b: "br \<in> {0..<3}" "bc \<in> {0..<3}"
    let ?B = "take 3 (drop (3 * br) g)"
    let ?cut = "\<lambda>row. take 3 (drop (3 * bc) row)"
    have "concat (map ?cut (map (map f) ?B)) = map f (concat (map ?cut ?B))"
      by (simp add: map_concat take_map drop_map comp_def)
    then have "mset (concat (map ?cut (map (map f) ?B))) = image_mset f (mset (concat (map ?cut ?B)))"
      by (simp only: mset_map)
    then have "band_box bc (mset (map (map f) ?B)) = image_mset f (band_box bc (mset ?B))"
      by (simp only: mset_band_cells)
    with boxes b fd show "band_box bc (mset (take 3 (drop (3 * br) (map (map f) g)))) = digits"
      by (simp add: take_map drop_map)
  qed
  from l r' c' b' show ?thesis unfolding g' by (simp add: valid_solution_mset)
qed

lemma generate_solution_valid: "valid_solution (fst (generate_solution seedStr))"
  unfolding generate_solution_def steps_1_to_3_def
  by (intro permute_numbers_valid swap_bands_valid shuffle_cols_in_bands_valid
      shuffle_rows_in_bands_valid maybe_transpose_valid) (simp add: baseGrid_valid)

lemma solution_generateBoard: "solution (generateBoard seedStr difficulty) = fst (generate_solution seedStr)"
  by (simp add: generateBoard_def case_prod_beta Let_def)

lemma rng_coin: "fst (rng_call s) > 0.5 \<longleftrightarrow> mix (js_add s 0x6D2B79F5) > 2147483648"
proof -
  define m where "m = mix (js_add s 0x6D2B79F5)"
  have "real_of_int m / 4294967296 > 0.5 \<longleftrightarrow> real_of_int m > 2147483648" by simp
  also have "\<dots> \<longleftrightarrow> m > 2147483648" by linarith
  finally show ?thesis by (simp add: rng_call_def Let_def m_def)
qed

lemma rng_index:
  "nat \<lfloor>fst (rng_call s) * real n\<rfloor> = nat (mix (js_add s 0x6D2B79F5) * int n div 4294967296)"
proof -
  define m where "m = mix (js_add s 0x6D2B79F5)"
  have "real_of_int m / 4294967296 * real n = real_of_int (m * int n) / real_of_int 4294967296"
    by simp
  then have "\<lfloor>real_of_int m / 4294967296 * real n\<rfloor> = m * int n div 4294967296"
    by (simp only: floor_divide_of_int_eq)
  then show ?thesis by (simp add: rng_call_def Let_def m_def)
qed

lemma rng_snd: "snd (rng_call s) = js_add s 0x6D2B79F5"
  by (simp add: rng_call_def Let_def)

lemma shuffle_from_int [code]:
  "shuffle_from 0 array seed = (array, seed)"
  "shuffle_from (Suc k) array seed =
     (let seed' = js_add seed 0x6D2B79F5;
          j = nat (mix seed' * int (k + 2) div 4294967296)
      in shuffle_from k (array[Suc k := array ! j, j := array ! Suc k]) seed')"
  using rng_index[of seed "Suc k + 1"] rng_snd[of seed]
  by (simp_all add: case_prod_beta Let_def)

lemma shuffle_band_int [code]:
  "shuffle_band b st =
     (let seed1 = js_add (snd st) 0x6D2B79F5
      in if mix seed1 > 2147483648
         then (let rs = shuffle [fst st ! b, fst st ! (b + 1), fst st ! (b + 2)] seed1
               in ((fst st)[b := fst rs ! 0, b + 1 := fst rs ! 1, b + 2 := fst rs ! 2], snd rs))
         else (fst st, seed1))"
  using rng_coin[of "snd st"] rng_snd[of "snd st"]
  by (simp add: shuffle_band_def case_prod_beta Let_def)

lemma maybe_transpose_int [code]:
  "maybe_transpose st =
     (let seed1 = js_add (snd st) 0x6D2B79F5
      in if mix seed1 > 2147483648 then (transpose_grid (fst st), seed1) else (fst st, seed1))"
  using rng_coin[of "snd st"] rng_snd[of "snd st"]
  by (simp add: maybe_transpose_def case_prod_beta Let_def)

lemma gated_int [code]:
  "gated f st =
     (let seed1 = js_add (snd st) 0x6D2B79F5
      in if mix seed1 > 2147483648 then f (fst st, seed1) else (fst st, seed1))"
  using rng_coin[of "snd st"] rng_snd[of "snd st"]
  by (simp add: gated_def case_prod_beta Let_def)


lemma shuffle_cols_in_bands_int [code]:
  "shuffle_cols_in_bands st =
     (let r = shuffle_rows_in_bands (transpose_grid (fst st), snd st)
      in (transpose_grid (fst r), snd r))"
  by (simp add: shuffle_cols_in_bands_def case_prod_beta Let_def)

lemma swap_bands_int [code]:
  "swap_bands st =
     (let r = shuffle [take 3 (fst st), take 3 (drop 3 (fst st)), take 3 (drop 6 (fst st))] (snd st)
      in (fst r ! 0 @ fst r ! 1 @ fst r ! 2, snd r))"
  by (simp add: swap_bands_def case_prod_beta Let_def)

lemma permute_numbers_int [code]:
  "permute_numbers st =
     (let r = shuffle [1, 2, 3, 4, 5, 6, 7, 8, 9] (snd st);
          m = map_of (zip [1, 2, 3, 4, 5, 6, 7, 8, 9] (fst r))
      in (map (\<lambda>row. map (\<lambda>val. map_get m val) row) (fst st), snd r))"
  by (simp add: permute_numbers_def case_prod_beta Let_def)

lemma puzzle_generateBoard:
  "puzzle (generateBoard seedStr difficulty) =
     mask_grid (set (take (cellsToKeep difficulty)
        (fst (shuffle [0..<81] (snd (generate_solution seedStr))))))
       (fst (generate_solution seedStr))"
  by (simp add: generateBoard_def case_prod_beta Let_def)

lemma mask_row_nth:
  "c < length xs \<Longrightarrow>
   mask_row K r xs ! c = (if r * 9 + c \<in> K then Some (xs ! c) else None)"
  by (simp add: mask_row_def)

lemma mask_grid_subset_reveal: "subset_reveal (mask_grid K g) g"
  by (auto simp: subset_reveal_def mask_grid_def mask_row_nth) (simp_all add: mask_row_def)

lemma mask_row_count:
  "length (filter (\<lambda>cell. cell \<noteq> None) (mask_row K r xs))
     = length (filter (\<lambda>i. i \<in> K) [r * 9..<r * 9 + length xs])"
proof -
  let ?f = "\<lambda>(c, val::int). if r * 9 + c \<in> K then Some val else None"
  let ?zs = "zip [0..<length xs] xs"
  have "length (filter (\<lambda>cell. cell \<noteq> None) (map ?f ?zs))
      = length (filter ((\<lambda>cell. cell \<noteq> None) \<circ> ?f) ?zs)"
    by (simp add: filter_map)
  also have "(\<lambda>cell. cell \<noteq> None) \<circ> ?f = (\<lambda>c. r * 9 + c \<in> K) \<circ> fst"
    by (auto simp: fun_eq_iff)
  also have "length (filter ((\<lambda>c. r * 9 + c \<in> K) \<circ> fst) ?zs)
      = length (filter (\<lambda>c. r * 9 + c \<in> K) (map fst ?zs))"
    by (simp only: filter_map length_map)
  also have "map fst ?zs = [0..<length xs]" by simp
  also have "length (filter (\<lambda>c. r * 9 + c \<in> K) [0..<length xs])
      = length (filter ((\<lambda>i. i \<in> K) \<circ> (\<lambda>c. c + r * 9)) [0..<length xs])"
    by (simp add: comp_def add.commute)
  also have "\<dots> = length (filter (\<lambda>i. i \<in> K) (map (\<lambda>c. c + r * 9) [0..<length xs]))"
    by (simp add: filter_map)
  also have "map (\<lambda>c. c + r * 9) [0..<length xs] = [r * 9..<length xs + r * 9]"
    by (rule map_add_upt)
  finally show ?thesis by (simp add: mask_row_def add.commute)
qed

lemma mask_rows_count:
  "\<forall>row \<in> set g. length row = 9 \<Longrightarrow>
   length (filter (\<lambda>cell. cell \<noteq> None)
      (concat (map (\<lambda>(r, row). mask_row K r row) (zip [r0..<r0 + length g] g))))
     = length (filter (\<lambda>i. i \<in> K) [r0 * 9..<r0 * 9 + 9 * length g])"
proof (induction g arbitrary: r0)
  case Nil
  show ?case by simp
next
  case (Cons row g)
  have z: "zip [r0..<r0 + length (row # g)] (row # g) = (r0, row) # zip [Suc r0..<Suc r0 + length g] g"
    by (subst upt_rec) simp
  have ih: "length (filter (\<lambda>cell. cell \<noteq> None)
      (concat (map (\<lambda>(r, row). mask_row K r row) (zip [Suc r0..<Suc r0 + length g] g))))
     = length (filter (\<lambda>i. i \<in> K) [Suc r0 * 9..<Suc r0 * 9 + 9 * length g])"
    using Cons.prems by (intro Cons.IH) simp
  have lr: "length row = 9" using Cons.prems by simp
  have sp: "[r0 * 9..<r0 * 9 + 9 * length (row # g)]
      = [r0 * 9..<r0 * 9 + 9] @ [Suc r0 * 9..<Suc r0 * 9 + 9 * length g]"
    using upt_add_eq_append[of "r0 * 9" "r0 * 9 + 9" "9 * length g"] by (simp add: algebra_simps)
  show ?case
    unfolding z sp using ih mask_row_count[of K r0 row] lr by simp
qed

lemma revealed_mask_grid:
  assumes "length g = 9" "\<forall>row \<in> set g. length row = 9"
  shows "revealed (mask_grid K g) = card (K \<inter> {0..<81})"
proof -
  have "revealed (mask_grid K g) = length (filter (\<lambda>i. i \<in> K) [0..<81])"
    using mask_rows_count[OF assms(2), of K 0] assms(1) by (simp add: revealed_def mask_grid_def)
  also have "\<dots> = card ({i. i \<in> K} \<inter> set [0..<81])"
    by (rule distinct_length_filter) simp
  finally show ?thesis by simp
qed

lemma cellsToKeep_le: "cellsToKeep difficulty \<le> 81"
  by (simp add: cellsToKeep_def)

lemma kept_card:
  "card (set (take (cellsToKeep difficulty) (fst (shuffle [0..<81] s))) \<inter> {0..<81})
     = cellsToKeep difficulty"
proof -
  let ?idx = "fst (shuffle [0..<81] s)"
  have m: "mset ?idx = mset [0..<81]" by (rule shuffle_mset)
  then have d: "distinct ?idx" using mset_eq_imp_distinct_iff[OF m] by simp
  have s: "set ?idx = {0..<81}" using mset_eq_setD[OF m] by simp
  have l: "length ?idx = 81" using shuffle_length[of "[0..<81]" s] by simp
  have "set (take (cellsToKeep difficulty) ?idx) \<subseteq> {0..<81}"
    using s set_take_subset[of "cellsToKeep difficulty" ?idx] by simp
  then have "set (take (cellsToKeep difficulty) ?idx) \<inter> {0..<81} = set (take (cellsToKeep difficulty) ?idx)"
    by blast
  moreover have "card (set (take (cellsToKeep difficulty) ?idx)) = length (take (cellsToKeep difficulty) ?idx)"
    using d by (intro distinct_card distinct_take)
  ultimately show ?thesis using l cellsToKeep_le[of difficulty] by simp
qed

lemma revealed_generateBoard:
  "revealed (puzzle (generateBoard seedStr difficulty)) = cellsToKeep difficulty"
proof -
  have v: "valid_solution (fst (generate_solution seedStr))" by (rule generate_solution_valid)
  then have "length (fst (generate_solution seedStr)) = 9"
    and "\<forall>row \<in> set (fst (generate_solution seedStr)). length row = 9"
    by (simp_all add: valid_solution_def)
  from revealed_mask_grid[OF this] show ?thesis
    by (simp add: puzzle_generateBoard kept_card)
qed

subsection \<open>The claims about the Sudoku generator\<close>

text \<open>
  Claim C1.  For every seed string and every difficulty, the solution grid is a 9 by 9 grid
  in which every row, every column and every 3 by 3 box holds each digit from 1 to 9 exactly
  once: the base grid does, and the transpose, the shuffles of rows inside a band, of
  columns inside a band and of the bands, and the relabeling of the digits keep it so.
\<close>

theorem solution_valid: "valid_solution (solution (generateBoard seedStr difficulty))"
  unfolding solution_generateBoard by (rule generate_solution_valid)

text \<open>The theorem at the seed \<open>2024-1-1\<close>, with the grid the generator makes there.\<close>

theorem solution_valid_witness:
  "valid_solution (solution (generateBoard (js ''2024-1-1'') ''Hard'')) \<and>
   solution (generateBoard (js ''2024-1-1'') ''Hard'') =
     [[4, 7, 3, 1, 5, 8, 2, 6, 9], [8, 6, 1, 2, 7, 9, 3, 4, 5], [2, 9, 5, 6, 4, 3, 7, 1, 8],
      [9, 1, 4, 5, 3, 7, 6, 8, 2], [6, 2, 7, 9, 8, 1, 5, 3, 4], [5, 3, 8, 4, 6, 2, 9, 7, 1],
      [3, 4, 9, 8, 2, 6, 1, 5, 7], [1, 8, 6, 7, 9, 5, 4, 2, 3], [7, 5, 2, 3, 1, 4, 8, 9, 6]]"
proof -
  have "fst (generate_solution (js ''2024-1-1'')) =
     [[4, 7, 3, 1, 5, 8, 2, 6, 9], [8, 6, 1, 2, 7, 9, 3, 4, 5], [2, 9, 5, 6, 4, 3, 7, 1, 8],
      [9, 1, 4, 5, 3, 7, 6, 8, 2], [6, 2, 7, 9, 8, 1, 5, 3, 4], [5, 3, 8, 4, 6, 2, 9, 7, 1],
      [3, 4, 9, 8, 2, 6, 1, 5, 7], [1, 8, 6, 7, 9, 5, 4, 2, 3], [7, 5, 2, 3, 1, 4, 8, 9, 6]]"
    by code_simp
  with solution_valid[of "js ''2024-1-1''" "''Hard''"] show ?thesis
    by (simp add: solution_generateBoard)
qed

text \<open>
  Claim C5.  For every seed string and every difficulty, every cell of the puzzle that is
  not \<open>null\<close> is the cell of the solution at the same place, and the number of cells that
  are not \<open>null\<close> is the reveal count of the difficulty: 45 for Easy, 35 for Medium, 24 for
  Hard.
\<close>

theorem puzzle_reveals_solution:
  "subset_reveal (puzzle (generateBoard seedStr difficulty)) (solution (generateBoard seedStr difficulty)) \<and>
   revealed (puzzle (generateBoard seedStr difficulty)) = cellsToKeep difficulty \<and>
   cellsToKeep ''Easy'' = 45 \<and> cellsToKeep ''Medium'' = 35 \<and> cellsToKeep ''Hard'' = 24"
proof (intro conjI)
  show "subset_reveal (puzzle (generateBoard seedStr difficulty)) (solution (generateBoard seedStr difficulty))"
    unfolding puzzle_generateBoard solution_generateBoard by (rule mask_grid_subset_reveal)
  show "revealed (puzzle (generateBoard seedStr difficulty)) = cellsToKeep difficulty"
    by (rule revealed_generateBoard)
qed (simp_all add: cellsToKeep_def)

text \<open>The theorem at the seed \<open>2024-1-1\<close> and the three difficulties.\<close>

theorem puzzle_reveals_solution_witness:
  "subset_reveal (puzzle (generateBoard (js ''2024-1-1'') ''Medium''))
     (solution (generateBoard (js ''2024-1-1'') ''Medium'')) \<and>
   revealed (puzzle (generateBoard (js ''2024-1-1'') ''Easy'')) = 45 \<and>
   revealed (puzzle (generateBoard (js ''2024-1-1'') ''Medium'')) = 35 \<and>
   revealed (puzzle (generateBoard (js ''2024-1-1'') ''Hard'')) = 24"
  using puzzle_reveals_solution[of "js ''2024-1-1''" "''Easy''"]
    puzzle_reveals_solution[of "js ''2024-1-1''" "''Medium''"]
    puzzle_reveals_solution[of "js ''2024-1-1''" "''Hard''"]
  by simp

text \<open>
  Claim C6, as the specification states it: a difficulty that is none of the three literals
  gets Medium's 35 revealed cells.  It fails: the chain of conditionals ends in 24, so the
  difficulty \<open>Expert\<close> gets 24 revealed cells.
\<close>

theorem unknown_difficulty_not_medium:
  "revealed (puzzle (generateBoard (js ''2024-1-1'') ''Expert'')) \<noteq> 35"
  by (simp add: revealed_generateBoard cellsToKeep_def)

text \<open>
  Claim C6, amended.  For every difficulty value that is not one of the three literals
  Easy, Medium and Hard, the generator uses Hard's reveal count of 24 revealed cells.
\<close>

theorem unknown_difficulty_reveals_24:
  assumes "difficulty \<noteq> ''Easy''" "difficulty \<noteq> ''Medium''" "difficulty \<noteq> ''Hard''"
  shows "revealed (puzzle (generateBoard seedStr difficulty)) = 24 \<and>
         revealed (puzzle (generateBoard seedStr difficulty)) = cellsToKeep ''Hard''"
  using assms by (simp add: revealed_generateBoard cellsToKeep_def)

theorem unknown_difficulty_reveals_24_witness:
  "''Expert'' \<noteq> ''Easy'' \<and> ''Expert'' \<noteq> ''Medium'' \<and> ''Expert'' \<noteq> ''Hard'' \<and>
   revealed (puzzle (generateBoard (js ''2024-1-1'') ''Expert'')) = 24"
  using unknown_difficulty_reveals_24[of "''Expert''" "js ''2024-1-1''"] by simp

text \<open>
  Claim C7, as the specification states it: each of the five transformations is behind a
  coin flip.  It fails for the shuffle of the bands and for the relabeling of the digits,
  which \<open>generateBoard\<close> calls with no coin flip before them.  At the seed \<open>2024-1-1\<close>
  the number drawn where the shuffle of the bands starts is not above one half and the
  bands are reordered all the same; the number drawn where the relabeling starts is not
  above one half and the digits are relabeled all the same; and the solution is not the
  one of the generator that flips a coin before each of the five.
\<close>

theorem bands_and_digits_not_gated:
  "\<not> fst (rng_call (snd (steps_1_to_3 (js ''2024-1-1'')))) > 0.5 \<and>
   fst (swap_bands (steps_1_to_3 (js ''2024-1-1''))) \<noteq> fst (steps_1_to_3 (js ''2024-1-1'')) \<and>
   \<not> fst (rng_call (snd (swap_bands (steps_1_to_3 (js ''2024-1-1''))))) > 0.5 \<and>
   fst (permute_numbers (swap_bands (steps_1_to_3 (js ''2024-1-1''))))
     \<noteq> fst (swap_bands (steps_1_to_3 (js ''2024-1-1''))) \<and>
   fst (generate_solution (js ''2024-1-1'')) \<noteq> fst (spec_generate_solution (js ''2024-1-1''))"
proof -
  have "\<not> mix (js_add (snd (steps_1_to_3 (js ''2024-1-1''))) 0x6D2B79F5) > 2147483648"
    by code_simp
  moreover have "fst (swap_bands (steps_1_to_3 (js ''2024-1-1''))) \<noteq> fst (steps_1_to_3 (js ''2024-1-1''))"
    by code_simp
  moreover have "\<not> mix (js_add (snd (swap_bands (steps_1_to_3 (js ''2024-1-1'')))) 0x6D2B79F5) > 2147483648"
    by code_simp
  moreover have "fst (permute_numbers (swap_bands (steps_1_to_3 (js ''2024-1-1''))))
     \<noteq> fst (swap_bands (steps_1_to_3 (js ''2024-1-1'')))"
    by code_simp
  moreover have "fst (generate_solution (js ''2024-1-1'')) \<noteq> fst (spec_generate_solution (js ''2024-1-1''))"
    by code_simp
  ultimately show ?thesis by (simp only: rng_coin) simp
qed

text \<open>
  Claim C7, amended.  The transpose, the shuffle of the rows of each band and the shuffle
  of the columns of each column band are applied only when a coin flip drawn from the
  seeded generator is above one half, and skipped otherwise; the shuffle of the three bands
  and the relabeling of the digits are always applied, with no coin flip.
\<close>

theorem first_three_transformations_gated:
  "generate_solution seedStr = amended_generate_solution seedStr"
proof -
  have a: "\<And>st :: sudoku \<times> int. maybe_transpose st = gated transpose_step st"
    by (simp add: maybe_transpose_def gated_def transpose_step_def case_prod_beta Let_def)
  have b: "\<And>b (st :: sudoku \<times> int). shuffle_band b st = gated (band_step b) st"
    by (simp add: shuffle_band_def gated_def band_step_def case_prod_beta Let_def)
  have c: "\<And>st :: sudoku \<times> int. shuffle_rows_in_bands st = gated_bands st"
    by (simp add: shuffle_rows_in_bands_def gated_bands_def b)
  have d: "\<And>st :: sudoku \<times> int. shuffle_cols_in_bands st = transpose_step (gated_bands (transpose_step st))"
    by (simp add: shuffle_cols_in_bands_def transpose_step_def c case_prod_beta Let_def)
  show ?thesis
    by (simp add: generate_solution_def steps_1_to_3_def amended_generate_solution_def a c d)
qed

section \<open>Properties of the crossword layout\<close>

lemma cell_at_place [simp]: "cell_at (place w r c d) i = pos d r c i"
  by (cases d) (simp_all add: cell_at_def place_def pos_def)

lemma place_simps [simp]:
  "answer (place w r c d) = answer w" "row (place w r c d) = r"
  "col (place w r c d) = c" "direction (place w r c d) = d"
  by (simp_all add: place_def)

lemma grid_get_cellv: "grid_get g r c = Some x \<Longrightarrow> cellv g (r, c) = x"
  by (auto simp: grid_get_def cellv_def split: if_splits)

lemma grid_get_Some: "0 \<le> r \<Longrightarrow> r < int (length g) \<Longrightarrow> grid_get g r c = Some (cellv g (r, c))"
  by (simp add: grid_get_def cellv_def)

lemma grid_set_Some: "0 \<le> r \<Longrightarrow> r < int (length g) \<Longrightarrow> \<exists>g'. grid_set g r c v = Some g'"
  by (simp add: grid_set_def)

lemma grid_set_length: "grid_set g r c v = Some g' \<Longrightarrow> length g' = length g"
  by (auto simp: grid_set_def split: if_splits)

lemma grid_set_range: "grid_set g r c v = Some g' \<Longrightarrow> 0 \<le> r \<and> r < int (length g)"
  by (auto simp: grid_set_def split: if_splits)

lemma grid_set_cellv:
  "grid_set g r c v = Some g' \<Longrightarrow> cellv g' x = (if x = (r, c) then v else cellv g x)"
  by (cases x) (auto simp: grid_set_def cellv_def array_set_def nth_list_update split: if_splits)

lemma grid_set_width:
  "grid_set g r c v = Some g' \<Longrightarrow> n < length g \<Longrightarrow> js_length (g ! n) \<le> js_length (g' ! n)"
  by (auto simp: grid_set_def array_set_def nth_list_update split: if_splits)

lemma placeWord_length: "placeWord g w r c d = Some g' \<Longrightarrow> length g' = length g"
proof (induction w arbitrary: g r c)
  case Nil
  then show ?case by simp
next
  case (Cons ch rest)
  then show ?case
    by (cases d) (auto split: option.splits dest!: grid_set_length)
qed

lemma placeWord_width:
  "placeWord g w r c d = Some g' \<Longrightarrow> n < length g \<Longrightarrow> js_length (g ! n) \<le> js_length (g' ! n)"
proof (induction w arbitrary: g r c)
  case Nil
  then show ?case by simp
next
  case (Cons ch rest)
  from Cons.prems obtain g1 where g1: "grid_set g r c (Letter ch) = Some g1"
    by (auto split: option.splits)
  then have l: "n < length g1" using Cons.prems(2) by (simp add: grid_set_length)
  have w: "js_length (g ! n) \<le> js_length (g1 ! n)" using grid_set_width[OF g1 Cons.prems(2)] .
  show ?case
  proof (cases d)
    case Across
    with Cons.prems g1 have "placeWord g1 rest r (c + 1) d = Some g'" by simp
    from Cons.IH[OF this l] w show ?thesis by simp
  next
    case Down
    with Cons.prems g1 have "placeWord g1 rest (r + 1) c d = Some g'" by simp
    from Cons.IH[OF this l] w show ?thesis by simp
  qed
qed

lemma placeWord_cellv:
  assumes "placeWord g w r c d = Some g'"
  shows "(\<forall>i < length w. cellv g' (pos d r c (int i)) = Letter (w ! i)) \<and>
         (\<forall>x. (\<forall>i < length w. x \<noteq> pos d r c (int i)) \<longrightarrow> cellv g' x = cellv g x)"
  using assms
proof (induction w arbitrary: g r c)
  case Nil
  then show ?case by simp
next
  case (Cons ch rest)
  from Cons.prems obtain g1 where g1: "grid_set g r c (Letter ch) = Some g1"
    by (auto split: option.splits)
  define r1 where "r1 = (case d of Across \<Rightarrow> r | Down \<Rightarrow> r + 1)"
  define c1 where "c1 = (case d of Across \<Rightarrow> c + 1 | Down \<Rightarrow> c)"
  have rec: "placeWord g1 rest r1 c1 d = Some g'"
    using Cons.prems g1 by (cases d) (simp_all add: r1_def c1_def)
  have shift: "\<And>i. pos d r1 c1 (int i) = pos d r c (int (Suc i))"
    by (cases d) (simp_all add: pos_def r1_def c1_def)
  have p0: "pos d r c 0 = (r, c)" by (cases d) (simp_all add: pos_def)
  have ne: "\<And>i. pos d r c (int (Suc i)) \<noteq> (r, c)" by (cases d) (simp_all add: pos_def)
  note IH = Cons.IH[OF rec, unfolded shift]
  have ih1: "\<And>i. i < length rest \<Longrightarrow> cellv g' (pos d r c (int (Suc i))) = Letter (rest ! i)"
    using IH by blast
  have ih2: "\<And>x. (\<forall>i < length rest. x \<noteq> pos d r c (int (Suc i))) \<Longrightarrow> cellv g' x = cellv g1 x"
    using IH by blast
  have a: "\<forall>i < length (ch # rest). cellv g' (pos d r c (int i)) = Letter ((ch # rest) ! i)"
  proof (intro allI impI)
    fix i assume i: "i < length (ch # rest)"
    show "cellv g' (pos d r c (int i)) = Letter ((ch # rest) ! i)"
    proof (cases i)
      case 0
      have "cellv g' (r, c) = cellv g1 (r, c)" using ne by (intro ih2) (metis)
      then show ?thesis using 0 p0 grid_set_cellv[OF g1, of "(r, c)"] by simp
    next
      case (Suc m)
      with i ih1[of m] show ?thesis by simp
    qed
  qed
  have b: "\<forall>x. (\<forall>i < length (ch # rest). x \<noteq> pos d r c (int i)) \<longrightarrow> cellv g' x = cellv g x"
  proof (intro allI impI)
    fix x assume x: "\<forall>i < length (ch # rest). x \<noteq> pos d r c (int i)"
    then have "0 < length (ch # rest) \<longrightarrow> x \<noteq> pos d r c (int 0)" by blast
    then have "x \<noteq> (r, c)" using p0 by simp
    moreover have "\<forall>i < length rest. x \<noteq> pos d r c (int (Suc i))" using x by auto
    ultimately show "cellv g' x = cellv g x"
      using ih2[of x] grid_set_cellv[OF g1, of x] by simp
  qed
  from a b show ?case by blast
qed

lemma placeWord_Some:
  assumes "case d of Across \<Rightarrow> w = [] \<or> (0 \<le> r \<and> r < int (length g))
                   | Down \<Rightarrow> 0 \<le> r \<and> r + int (length w) \<le> int (length g)"
  shows "\<exists>g'. placeWord g w r c d = Some g'"
  using assms
proof (induction w arbitrary: g r c)
  case Nil
  show ?case by simp
next
  case (Cons ch rest)
  have rng: "0 \<le> r \<and> r < int (length g)" using Cons.prems by (cases d) auto
  then obtain g1 where g1: "grid_set g r c (Letter ch) = Some g1"
    using grid_set_Some by blast
  then have l: "length g1 = length g" by (rule grid_set_length)
  show ?case
  proof (cases d)
    case Across
    then have "\<exists>g'. placeWord g1 rest r (c + 1) d = Some g'"
      using rng l by (intro Cons.IH) simp
    with g1 Across show ?thesis by simp
  next
    case Down
    then have "\<exists>g'. placeWord g1 rest (r + 1) c d = Some g'"
      using Cons.prems l by (intro Cons.IH) simp
    with g1 Down show ?thesis by simp
  qed
qed

lemma reject_if_Some: "t = Some x \<Longrightarrow> rest = Some y \<Longrightarrow> \<exists>z. reject_if t rest = Some z"
  by (cases x) (auto simp: reject_if_def)

lemma reject_if_not_None: "t \<noteq> None \<Longrightarrow> rest \<noteq> None \<Longrightarrow> reject_if t rest \<noteq> None"
  using reject_if_Some by fastforce

lemma and_then_not_None: "(a \<Longrightarrow> b \<noteq> None) \<Longrightarrow> and_then a b \<noteq> None"
  by (cases a) (simp_all add: and_then_def)

lemma filled_not_None: "0 \<le> r \<Longrightarrow> r < int (length g) \<Longrightarrow> filled g r c \<noteq> None"
  by (simp add: filled_def grid_get_def)

lemma reject_if_True: "reject_if t rest = Some True \<longleftrightarrow> t = Some False \<and> rest = Some True"
  by (auto simp: reject_if_def split: option.splits bool.splits)

lemma and_then_False: "and_then a b = Some False \<longleftrightarrow> (a \<longrightarrow> b = Some False)"
  by (simp add: and_then_def)

lemma filled_False: "filled g r c = Some False \<Longrightarrow> cellv g (r, c) = Null"
  by (auto simp: filled_def dest: grid_get_cellv)

lemma across_cells_not_None:
  "0 \<le> r \<Longrightarrow> r < int (length g) \<Longrightarrow> across_cells g r c w \<noteq> None"
proof (induction w arbitrary: c)
  case Nil
  show ?case by simp
next
  case (Cons ch rest)
  have ih: "across_cells g r (c + 1) rest \<noteq> None" using Cons by simp
  have up: "and_then (r > 0) (filled g (r - 1) c) \<noteq> None"
    using Cons.prems by (intro and_then_not_None filled_not_None) simp_all
  have dn: "and_then (r < int (length g) - 1) (filled g (r + 1) c) \<noteq> None"
    using Cons.prems by (intro and_then_not_None filled_not_None) simp_all
  have "reject_if (Some (cellv g (r, c) \<noteq> Null \<and> cellv g (r, c) \<noteq> Letter ch))
          (if cellv g (r, c) = Null
           then reject_if (and_then (r > 0) (filled g (r - 1) c))
                  (reject_if (and_then (r < int (length g) - 1) (filled g (r + 1) c))
                     (across_cells g r (c + 1) rest))
           else across_cells g r (c + 1) rest) \<noteq> None"
    by (intro reject_if_not_None) (use ih up dn in \<open>auto simp: reject_if_def split: bool.splits\<close>)
  then show ?case
    using Cons.prems by (simp add: grid_get_Some del: not_None_eq)
qed

lemma down_cells_not_None:
  "0 \<le> r \<Longrightarrow> r + int (length w) \<le> int (length g) \<Longrightarrow> down_cells g width r c w \<noteq> None"
proof (induction w arbitrary: r)
  case Nil
  show ?case by simp
next
  case (Cons ch rest)
  have rng: "0 \<le> r" "r < int (length g)" using Cons.prems by simp_all
  have ih: "down_cells g width (r + 1) c rest \<noteq> None" using Cons.prems by (intro Cons.IH) simp_all
  have lf: "and_then (c > 0) (filled g r (c - 1)) \<noteq> None"
    using rng by (intro and_then_not_None filled_not_None)
  have rt: "and_then (c < width - 1) (filled g r (c + 1)) \<noteq> None"
    using rng by (intro and_then_not_None filled_not_None)
  have "reject_if (Some (cellv g (r, c) \<noteq> Null \<and> cellv g (r, c) \<noteq> Letter ch))
          (if cellv g (r, c) = Null
           then reject_if (and_then (c > 0) (filled g r (c - 1)))
                  (reject_if (and_then (c < width - 1) (filled g r (c + 1)))
                     (down_cells g width (r + 1) c rest))
           else down_cells g width (r + 1) c rest) \<noteq> None"
    by (intro reject_if_not_None) (use ih lf rt in \<open>auto simp: reject_if_def split: bool.splits\<close>)
  then show ?case
    using rng by (simp add: grid_get_Some del: not_None_eq)
qed

lemma canPlaceWord_not_None:
  assumes "g \<noteq> []"
    and "case d of Across \<Rightarrow> 0 \<le> r \<and> r < int (length g)
                 | Down \<Rightarrow> 0 \<le> r \<and> r + int (length w) \<le> int (length g)"
  shows "canPlaceWord g w r c d \<noteq> None"
proof -
  from assms(1) obtain row0 rows where g: "g = row0 # rows" by (cases g) auto
  show ?thesis
  proof (cases d)
    case Across
    with assms(2) have rng: "0 \<le> r" "r < int (length g)" by simp_all
    have "reject_if (Some (c + int (length w) > int (js_length row0)))
            (reject_if (and_then (c > 0) (filled g r (c - 1)))
               (reject_if (and_then (c + int (length w) < int (js_length row0)) (filled g r (c + int (length w))))
                  (across_cells g r c w))) \<noteq> None"
      using rng
      by (intro reject_if_not_None and_then_not_None filled_not_None across_cells_not_None) simp_all
    then show ?thesis using Across g by (simp add: canPlaceWord_def Let_def)
  next
    case Down
    with assms(2) have rng: "0 \<le> r" "r + int (length w) \<le> int (length g)" by simp_all
    have "reject_if (Some (r + int (length w) > int (length g)))
            (reject_if (and_then (r > 0) (filled g (r - 1) c))
               (reject_if (and_then (r + int (length w) < int (length g)) (filled g (r + int (length w)) c))
                  (down_cells g (int (js_length row0)) r c w))) \<noteq> None"
      using rng
      by (intro reject_if_not_None and_then_not_None filled_not_None down_cells_not_None) simp_all
    then show ?thesis using Down g by (simp add: canPlaceWord_def Let_def)
  qed
qed

lemma across_cells_True:
  "across_cells g r c w = Some True \<Longrightarrow> i < length w \<Longrightarrow>
   cellv g (r, c + int i) = Null \<or> cellv g (r, c + int i) = Letter (w ! i)"
proof (induction w arbitrary: c i)
  case Nil
  then show ?case by simp
next
  case (Cons ch rest)
  from Cons.prems(1) obtain x where x: "grid_get g r c = Some x"
    by (auto split: option.splits)
  from Cons.prems(1) x have ok: "\<not> (x \<noteq> Null \<and> x \<noteq> Letter ch)"
    and rec: "across_cells g r (c + 1) rest = Some True"
    by (auto simp: reject_if_True split: if_splits)
  show ?case
  proof (cases i)
    case 0
    with ok grid_get_cellv[OF x] show ?thesis by auto
  next
    case (Suc m)
    with Cons.prems(2) have "m < length rest" by simp
    from Cons.IH[OF rec this] Suc show ?thesis by (simp add: algebra_simps)
  qed
qed

lemma down_cells_True:
  "down_cells g width r c w = Some True \<Longrightarrow> i < length w \<Longrightarrow>
   cellv g (r + int i, c) = Null \<or> cellv g (r + int i, c) = Letter (w ! i)"
proof (induction w arbitrary: r i)
  case Nil
  then show ?case by simp
next
  case (Cons ch rest)
  from Cons.prems(1) obtain x where x: "grid_get g r c = Some x"
    by (auto split: option.splits)
  from Cons.prems(1) x have ok: "\<not> (x \<noteq> Null \<and> x \<noteq> Letter ch)"
    and rec: "down_cells g width (r + 1) c rest = Some True"
    by (auto simp: reject_if_True split: if_splits)
  show ?case
  proof (cases i)
    case 0
    with ok grid_get_cellv[OF x] show ?thesis by auto
  next
    case (Suc m)
    with Cons.prems(2) have "m < length rest" by simp
    from Cons.IH[OF rec this] Suc show ?thesis by (simp add: algebra_simps)
  qed
qed

lemma canPlaceWord_True:
  assumes "canPlaceWord g w r c d = Some True"
  shows "g \<noteq> [] \<and>
    (\<forall>i < length w. cellv g (pos d r c (int i)) = Null \<or> cellv g (pos d r c (int i)) = Letter (w ! i)) \<and>
    (case d of
       Across \<Rightarrow> (c > 0 \<longrightarrow> cellv g (r, c - 1) = Null) \<and>
                 (c + int (length w) < int (js_length (g ! 0)) \<longrightarrow> cellv g (r, c + int (length w)) = Null)
     | Down \<Rightarrow> (r > 0 \<longrightarrow> cellv g (r - 1, c) = Null) \<and>
               (r + int (length w) < int (length g) \<longrightarrow> cellv g (r + int (length w), c) = Null))"
proof -
  from assms obtain row0 rows where g: "g = row0 # rows"
    by (cases g) (auto simp: canPlaceWord_def)
  show ?thesis
  proof (cases d)
    case Across
    with assms g have
      a: "and_then (c > 0) (filled g r (c - 1)) = Some False"
      and b: "and_then (c + int (length w) < int (js_length row0)) (filled g r (c + int (length w))) = Some False"
      and cs: "across_cells g r c w = Some True"
      by (simp_all add: canPlaceWord_def Let_def reject_if_True)
    from a have a': "c > 0 \<longrightarrow> cellv g (r, c - 1) = Null"
      by (auto simp: and_then_False dest: filled_False)
    from b have b': "c + int (length w) < int (js_length (g ! 0)) \<longrightarrow> cellv g (r, c + int (length w)) = Null"
      using g by (auto simp: and_then_False dest: filled_False)
    from across_cells_True[OF cs] a' b' Across g show ?thesis by (simp add: pos_def)
  next
    case Down
    with assms g have
      a: "and_then (r > 0) (filled g (r - 1) c) = Some False"
      and b: "and_then (r + int (length w) < int (length g)) (filled g (r + int (length w)) c) = Some False"
      and cs: "down_cells g (int (js_length row0)) r c w = Some True"
      by (simp_all add: canPlaceWord_def Let_def reject_if_True)
    from a have a': "r > 0 \<longrightarrow> cellv g (r - 1, c) = Null"
      by (auto simp: and_then_False dest: filled_False)
    from b have b': "r + int (length w) < int (length g) \<longrightarrow> cellv g (r + int (length w), c) = Null"
      by (auto simp: and_then_False dest: filled_False)
    from down_cells_True[OF cs] a' b' Down g show ?thesis by (simp add: pos_def)
  qed
qed

lemma no_abutting_iff:
  "no_abutting out \<longleftrightarrow>
     (\<forall>w \<in> set out. \<forall>w' \<in> set out.
        direction w' = direction w \<longrightarrow> answer w \<noteq> [] \<longrightarrow> answer w' \<noteq> [] \<longrightarrow>
          cell_at w' 0 \<noteq> cell_at w (int (length (answer w))))"
  (is "?L \<longleftrightarrow> ?R")
proof
  assume ?L then show ?R unfolding no_abutting_def by blast
next
  assume r: ?R
  show ?L unfolding no_abutting_def
  proof (intro ballI impI conjI)
    fix w w' assume a: "w \<in> set out" "w' \<in> set out" "direction w' = direction w"
      "answer w \<noteq> []" "answer w' \<noteq> []"
    from r a show "cell_at w' 0 \<noteq> cell_at w (int (length (answer w)))" by blast
    from r a have "cell_at w 0 \<noteq> cell_at w' (int (length (answer w')))" by metis
    then show "cell_at w' (int (length (answer w')) - 1) \<noteq> cell_at w (- 1)"
      using a(3) by (auto simp: cell_at_def split: if_splits)
  qed
qed

lemma first_word_end_positive:
  assumes "0 < sz" "0 < len"
  shows "0 < (int sz - int len) div 2 + int len"
  using assms by linarith

lemma first_word_start_small:
  assumes "0 < sz"
  shows "(int sz - int len) div 2 < int sz"
  using assms by linarith

lemma direction_cases: "d \<noteq> Across \<longleftrightarrow> d = Down"
  by (cases d) simp_all

lemma commit_inv:
  assumes inv: "layout_inv sz F st" and cm: "commit sz st wordObj r c d st'"
  shows "layout_inv sz F st'"
proof -
  let ?g = "grid st" and ?g' = "grid st'" and ?word = "answer wordObj"
  let ?W = "place wordObj r c d"
  from inv obtain rest where
    lg: "length ?g = sz"
    and wd: "0 < sz \<longrightarrow> sz \<le> js_length (?g ! 0)"
    and F: "direction F = Across" "row F = int sz div 2"
      "col F = (int sz - int (length (answer F))) div 2" "answer F \<noteq> [] \<longrightarrow> 0 < sz"
    and pws: "placedWords st = F # rest" and later: "\<forall>pw \<in> set rest. later_ok sz pw"
    and letters: "\<forall>pw \<in> set (placedWords st). letters_in_grid ?g pw"
    and nab: "no_abutting (placedWords st)"
    unfolding layout_inv_def by blast
  from cm have cp: "canPlaceWord ?g ?word r c d = Some True"
    and pl: "placeWord ?g ?word r c d = Some ?g'"
    and pws': "placedWords st' = placedWords st @ [?W]"
    and cr: "\<exists>pw \<in> set (placedWords st). crossing sz pw ?word r c d"
    unfolding commit_def by blast+
  from cr obtain pw j k where pw: "pw \<in> set (placedWords st)"
    and j: "j < length ?word" and k: "k < length (answer pw)"
    and geo: "if direction pw = Across
         then d = Down \<and> r = row pw - int j \<and> c = col pw + int k \<and>
              0 \<le> r \<and> r + int (length ?word) \<le> int sz
         else d = Across \<and> r = row pw + int k \<and> c = col pw - int j \<and>
              0 \<le> c \<and> c + int (length ?word) \<le> int sz"
    unfolding crossing_def by blast
  from j have ne: "?word \<noteq> []" by auto
  from canPlaceWord_True[OF cp] have gne: "?g \<noteq> []"
    and cells: "\<And>i. i < length ?word \<Longrightarrow>
        cellv ?g (pos d r c (int i)) = Null \<or> cellv ?g (pos d r c (int i)) = Letter (?word ! i)"
    and ends: "case d of
       Across \<Rightarrow> (c > 0 \<longrightarrow> cellv ?g (r, c - 1) = Null) \<and>
                 (c + int (length ?word) < int (js_length (?g ! 0)) \<longrightarrow> cellv ?g (r, c + int (length ?word)) = Null)
     | Down \<Rightarrow> (r > 0 \<longrightarrow> cellv ?g (r - 1, c) = Null) \<and>
               (r + int (length ?word) < int (length ?g) \<longrightarrow> cellv ?g (r + int (length ?word), c) = Null)"
    by blast+
  from gne lg have sz: "0 < sz" by auto
  from placeWord_cellv[OF pl] have
    new: "\<And>i. i < length ?word \<Longrightarrow> cellv ?g' (pos d r c (int i)) = Letter (?word ! i)"
    and old: "\<And>x. (\<forall>i < length ?word. x \<noteq> pos d r c (int i)) \<Longrightarrow> cellv ?g' x = cellv ?g x"
    by blast+
  \<comment> \<open>the new word passed the bounds check\<close>
  have lw: "later_ok sz ?W"
  proof (cases "direction pw = Across")
    case True
    with geo ne show ?thesis by (simp add: later_ok_def)
  next
    case False
    with F(1) pw pws have "pw \<in> set rest" by auto
    with later have "later_ok sz pw" by blast
    with False have "0 \<le> row pw" "row pw + int (length (answer pw)) \<le> int sz"
      by (simp_all add: later_ok_def direction_cases)
    with False geo ne k show ?thesis by (simp add: later_ok_def)
  qed
  \<comment> \<open>letters\<close>
  have l': "\<forall>p \<in> set (placedWords st'). letters_in_grid ?g' p"
  proof
    fix p assume "p \<in> set (placedWords st')"
    then consider "p \<in> set (placedWords st)" | "p = ?W" using pws' by auto
    then show "letters_in_grid ?g' p"
    proof cases
      case 1
      show ?thesis unfolding letters_in_grid_def
      proof (intro allI impI)
        fix i assume i: "i < length (answer p)"
        from letters 1 i have o: "cellv ?g (cell_at p (int i)) = Letter (answer p ! i)"
          by (simp add: letters_in_grid_def)
        show "cellv ?g' (cell_at p (int i)) = Letter (answer p ! i)"
        proof (cases "\<exists>i' < length ?word. cell_at p (int i) = pos d r c (int i')")
          case True
          then obtain i' where i': "i' < length ?word" "cell_at p (int i) = pos d r c (int i')"
            by blast
          from cells[OF i'(1)] o i'(2) have "?word ! i' = answer p ! i" by auto
          with new[OF i'(1)] i'(2) show ?thesis by simp
        next
          case False
          then have "cellv ?g' (cell_at p (int i)) = cellv ?g (cell_at p (int i))"
            by (intro old) blast
          with o show ?thesis by simp
        qed
      qed
    next
      case 2
      then show ?thesis using new by (simp add: letters_in_grid_def)
    qed
  qed
  \<comment> \<open>no word of the same direction starts after the end of another\<close>
  have ab: "no_abutting (placedWords st')"
    unfolding no_abutting_iff
  proof (intro ballI impI)
    fix w w' assume w: "w \<in> set (placedWords st')" and w': "w' \<in> set (placedWords st')"
      and dir: "direction w' = direction w" and n: "answer w \<noteq> []" and n': "answer w' \<noteq> []"
    consider (oo) "w \<in> set (placedWords st)" "w' \<in> set (placedWords st)"
      | (nn) "w = ?W" "w' = ?W"
      | (on) "w \<in> set (placedWords st)" "w' = ?W"
      | (no) "w = ?W" "w' \<in> set (placedWords st)"
      using w w' pws' by auto
    then show "cell_at w' 0 \<noteq> cell_at w (int (length (answer w)))"
    proof cases
      case oo
      with nab dir n n' show ?thesis unfolding no_abutting_iff by blast
    next
      case nn
      with ne show ?thesis by (cases d) (simp_all add: pos_def)
    next
      case on
      \<comment> \<open>the new word does not start after the end of an old word \<open>w\<close>\<close>
      show ?thesis
      proof
        assume eq: "cell_at w' 0 = cell_at w (int (length (answer w)))"
        let ?n = "length (answer w)"
        from n have last: "?n - 1 < ?n" and npos: "0 < int ?n" by simp_all
        from letters on(1) last have lt: "cellv ?g (cell_at w (int (?n - 1))) = Letter (answer w ! (?n - 1))"
          unfolding letters_in_grid_def by blast
        from dir on(2) have dw: "direction w = d" by simp
        have wb: "w = F \<or> (w \<in> set rest \<and> later_ok sz w)" using on(1) pws later by auto
        show False
        proof (cases d)
          case Across
          from eq on(2) dw Across have e: "r = row w" "c = col w + int ?n"
            by (simp_all add: cell_at_def pos_def)
          have "0 < c"
          proof (cases "w = F")
            case True
            with e F(3) n sz first_word_end_positive[of sz ?n] show ?thesis by simp
          next
            case False
            with wb dw Across have "0 \<le> col w" by (simp add: later_ok_def)
            with e npos show ?thesis by linarith
          qed
          with ends Across have "cellv ?g (r, c - 1) = Null" by simp
          moreover have "cell_at w (int (?n - 1)) = (r, c - 1)"
            using e dw Across n by (simp add: cell_at_def of_nat_diff Suc_leI)
          ultimately show False using lt by simp
        next
          case Down
          from eq on(2) dw Down have e: "c = col w" "r = row w + int ?n"
            by (simp_all add: cell_at_def pos_def)
          from wb dw Down F(1) have "later_ok sz w" by auto
          with dw Down have "0 \<le> row w" by (simp add: later_ok_def)
          with e npos have "0 < r" by linarith
          with ends Down have "cellv ?g (r - 1, c) = Null" by simp
          moreover have "cell_at w (int (?n - 1)) = (r - 1, c)"
            using e dw Down n by (simp add: cell_at_def of_nat_diff Suc_leI)
          ultimately show False using lt by simp
        qed
      qed
    next
      case no
      \<comment> \<open>no old word \<open>w'\<close> starts after the end of the new word\<close>
      show ?thesis
      proof
        assume eq: "cell_at w' 0 = cell_at w (int (length (answer w)))"
        from n' have npos: "0 < int (length (answer w'))" by simp
        from n' have "0 < length (answer w')" by simp
        with letters no(2) have lt: "cellv ?g (cell_at w' (int 0)) = Letter (answer w' ! 0)"
          unfolding letters_in_grid_def by blast
        from dir no(1) have dw: "direction w' = d" by simp
        have wb: "w' = F \<or> (w' \<in> set rest \<and> later_ok sz w')" using no(2) pws later by auto
        show False
        proof (cases d)
          case Across
          from eq no(1) dw Across have e: "row w' = r" "col w' = c + int (length ?word)"
            by (simp_all add: cell_at_def pos_def)
          have "col w' < int sz"
          proof (cases "w' = F")
            case True
            with F(3) sz first_word_start_small[of sz "length (answer F)"] show ?thesis by simp
          next
            case False
            with wb dw Across have "col w' + int (length (answer w')) \<le> int sz" by (simp add: later_ok_def)
            with npos show ?thesis by linarith
          qed
          with e wd sz have "c + int (length ?word) < int (js_length (?g ! 0))" by simp
          with ends Across have "cellv ?g (r, c + int (length ?word)) = Null" by simp
          moreover have "cell_at w' (int 0) = (r, c + int (length ?word))"
            using e dw Across by (simp add: cell_at_def)
          ultimately show False using lt by simp
        next
          case Down
          from eq no(1) dw Down have e: "col w' = c" "row w' = r + int (length ?word)"
            by (simp_all add: cell_at_def pos_def)
          from wb dw Down F(1) have "later_ok sz w'" by auto
          with dw Down have "row w' + int (length (answer w')) \<le> int sz" by (simp add: later_ok_def)
          with npos have "row w' < int sz" by linarith
          with e lg have "r + int (length ?word) < int (length ?g)" by simp
          with ends Down have "cellv ?g (r + int (length ?word), c) = Null" by simp
          moreover have "cell_at w' (int 0) = (r + int (length ?word), c)"
            using e dw Down by (simp add: cell_at_def)
          ultimately show False using lt by simp
        qed
      qed
    qed
  qed
  have lg': "length ?g' = sz" using placeWord_length[OF pl] lg by simp
  have wd': "0 < sz \<longrightarrow> sz \<le> js_length (?g' ! 0)"
    using placeWord_width[OF pl, of 0] lg wd by auto
  have "placedWords st' = F # (rest @ [?W]) \<and> (\<forall>q \<in> set (rest @ [?W]). later_ok sz q)"
    using pws pws' later lw by simp
  then have ex: "\<exists>rest'. placedWords st' = F # rest' \<and> (\<forall>q \<in> set rest'. later_ok sz q)"
    by blast
  show ?thesis
    unfolding layout_inv_def using lg' wd' F ex l' ab by blast
qed

lemma layout_inv_same:
  assumes "grid st' = grid st" "placedWords st' = placedWords st"
  shows "layout_inv sz F st' = layout_inv sz F st"
  unfolding layout_inv_def assms by (rule refl)

lemma commits_inv: "commits sz st st' \<Longrightarrow> layout_inv sz F st \<Longrightarrow> layout_inv sz F st'"
proof (induction rule: commits.induct)
  case (same st' st sz)
  from layout_inv_same[OF same(1,2)] same(3) show ?case by simp
next
  case (more sz st st1 wordObj r c d st2)
  then show ?case using commit_inv by blast
qed

lemma commits_prefix: "commits sz st st' \<Longrightarrow> \<exists>ys. placedWords st' = placedWords st @ ys"
proof (induction rule: commits.induct)
  case (same st' st sz)
  then show ?case by simp
next
  case (more sz st st1 wordObj r c d st2)
  then show ?case by (auto simp: commit_def)
qed

lemma commits_subset: "commits sz st st' \<Longrightarrow> set (placedWords st) \<subseteq> set (placedWords st')"
  by (drule commits_prefix) auto

lemma commit_same:
  "commit sz st wordObj r c d st2 \<Longrightarrow> grid st' = grid st \<Longrightarrow> placedWords st' = placedWords st \<Longrightarrow>
   commit sz st' wordObj r c d st2"
  by (simp add: commit_def)

lemma commits_trans: "commits sz st1 st2 \<Longrightarrow> commits sz st st1 \<Longrightarrow> commits sz st st2"
proof (induction rule: commits.induct)
  case (same st' st0 sz)
  from same(3) same(1,2) show ?case
  proof (induction rule: commits.induct)
    case (same st1 st sz)
    then show ?case by (simp add: commits.same)
  next
    case (more sz st sta wordObj r c d stb)
    have "commit sz sta wordObj r c d st'"
      using more.hyps(2) more.prems by (simp add: commit_def)
    with more.hyps(1) show ?case by (rule commits.more)
  qed
next
  case (more sz st0 sta wordObj r c d stb)
  then show ?case by (meson commits.more)
qed

lemma commits_refl: "commits sz st st"
  by (simp add: commits.same)

lemma commits_flag: "commits sz st (st\<lparr>placed := b\<rparr>)"
  by (simp add: commits.same)

lemma crossing_rows:
  assumes inv: "layout_inv sz F st" and pw: "pw \<in> set (placedWords st)"
    and cr: "crossing sz pw word r c d"
  shows "grid st \<noteq> [] \<and>
    (case d of Across \<Rightarrow> 0 \<le> r \<and> r < int (length (grid st))
             | Down \<Rightarrow> 0 \<le> r \<and> r + int (length word) \<le> int (length (grid st)))"
proof -
  from inv obtain rest where lg: "length (grid st) = sz" and F: "direction F = Across"
    and pws: "placedWords st = F # rest" and later: "\<forall>q \<in> set rest. later_ok sz q"
    unfolding layout_inv_def by blast
  from cr obtain j k where j: "j < length word" and k: "k < length (answer pw)"
    and geo: "if direction pw = Across
         then d = Down \<and> r = row pw - int j \<and> c = col pw + int k \<and>
              0 \<le> r \<and> r + int (length word) \<le> int sz
         else d = Across \<and> r = row pw + int k \<and> c = col pw - int j \<and>
              0 \<le> c \<and> c + int (length word) \<le> int sz"
    unfolding crossing_def by blast
  from j have lp: "0 < int (length word)" by (cases word) auto
  show ?thesis
  proof (cases "direction pw = Across")
    case True
    with geo have g: "d = Down" "0 \<le> r" "r + int (length word) \<le> int sz" by simp_all
    with lp have "0 < int sz" by linarith
    with g lg show ?thesis by auto
  next
    case False
    with geo have g: "d = Across" "r = row pw + int k" "0 \<le> c" "c + int (length word) \<le> int sz"
      by simp_all
    with lp have s: "0 < int sz" by linarith
    from False F pw pws have "pw \<in> set rest" by auto
    with later False have "0 \<le> row pw" "row pw + int (length (answer pw)) \<le> int sz"
      by (simp_all add: later_ok_def direction_cases)
    with k g(2) have "0 \<le> r" "r < int sz" by simp_all
    with g(1) s lg show ?thesis by auto
  qed
qed

lemma try_place_commits:
  assumes inv: "layout_inv sz F st" and pw: "pw \<in> set (placedWords st)"
    and cr: "crossing sz pw (answer wordObj) r c d"
  shows "\<exists>st'. try_place wordObj r c d st = Some st' \<and> commits sz st st'"
proof -
  from crossing_rows[OF inv pw cr] have gne: "grid st \<noteq> []"
    and rows: "case d of Across \<Rightarrow> 0 \<le> r \<and> r < int (length (grid st))
             | Down \<Rightarrow> 0 \<le> r \<and> r + int (length (answer wordObj)) \<le> int (length (grid st))"
    by blast+
  from canPlaceWord_not_None[OF gne rows] obtain b
    where b: "canPlaceWord (grid st) (answer wordObj) r c d = Some b" by blast
  show ?thesis
  proof (cases b)
    case False
    with b show ?thesis by (simp add: try_place_def commits_refl)
  next
    case True
    have "\<exists>g'. placeWord (grid st) (answer wordObj) r c d = Some g'"
      using rows by (intro placeWord_Some) (cases d; simp)
    then obtain g' where g': "placeWord (grid st) (answer wordObj) r c d = Some g'" by blast
    let ?st' = "\<lparr>grid = g', placedWords = placedWords st @ [place wordObj r c d], placed = True\<rparr>"
    have "commit sz st wordObj r c d ?st'"
      using b True g' pw cr by (auto simp: commit_def)
    then have "commits sz st ?st'" using commits.more[OF commits_refl] by blast
    moreover have "try_place wordObj r c d st = Some ?st'"
      using b True g' by (simp add: try_place_def)
    ultimately show ?thesis by blast
  qed
qed

lemma try_intersection_commits:
  assumes inv: "layout_inv sz F st" and pw: "pw \<in> set (placedWords st)"
    and j: "j < length (answer wordObj)" and k: "k < length (answer pw)"
  shows "\<exists>st'. try_intersection sz wordObj pw j k st = Some st' \<and> commits sz st st'"
proof (cases "direction pw = Across")
  case True
  show ?thesis
  proof (cases "row pw - int j \<ge> 0 \<and> row pw - int j + int (length (answer wordObj)) \<le> int sz")
    case guard: True
    have "crossing sz pw (answer wordObj) (row pw - int j) (col pw + int k) Down"
      unfolding crossing_def using True guard j k by auto
    from try_place_commits[OF inv pw this] True guard show ?thesis
      by (simp add: try_intersection_def Let_def)
  next
    case False
    with True show ?thesis by (auto simp: try_intersection_def Let_def commits_refl)
  qed
next
  case nd: False
  show ?thesis
  proof (cases "col pw - int j \<ge> 0 \<and> col pw - int j + int (length (answer wordObj)) \<le> int sz")
    case guard: True
    have "crossing sz pw (answer wordObj) (row pw + int k) (col pw - int j) Across"
      unfolding crossing_def using nd guard j k by auto
    from try_place_commits[OF inv pw this] nd guard show ?thesis
      by (simp add: try_intersection_def Let_def)
  next
    case False
    with nd show ?thesis by (auto simp: try_intersection_def Let_def commits_refl)
  qed
qed

lemma k_loop_commits:
  assumes "layout_inv sz F st" "pw \<in> set (placedWords st)"
    "j < length (answer wordObj)" "\<forall>k \<in> set ks. k < length (answer pw)"
  shows "\<exists>st'. k_loop sz wordObj pw j ks st = Some st' \<and> commits sz st st'"
  using assms
proof (induction ks arbitrary: st)
  case Nil
  show ?case by (simp add: commits_refl)
next
  case (Cons k ks)
  show ?case
  proof (cases "answer pw ! k = answer wordObj ! j")
    case True
    from Cons.prems have "k < length (answer pw)" by simp
    from try_intersection_commits[OF Cons.prems(1,2,3) this] obtain st1
      where s1: "try_intersection sz wordObj pw j k st = Some st1" and c1: "commits sz st st1"
      by blast
    have "layout_inv sz F st1" using commits_inv[OF c1 Cons.prems(1)] .
    moreover have "pw \<in> set (placedWords st1)" using commits_subset[OF c1] Cons.prems(2) by blast
    ultimately obtain st' where s': "k_loop sz wordObj pw j ks st1 = Some st'"
      and c': "commits sz st1 st'"
      using Cons.IH[of st1] Cons.prems(3,4) by auto
    from s1 s' True commits_trans[OF c' c1] show ?thesis by simp
  next
    case False
    with Cons.IH[OF Cons.prems(1,2,3)] Cons.prems(4) show ?thesis by simp
  qed
qed

lemma j_loop_commits:
  assumes "layout_inv sz F st" "pw \<in> set (placedWords st)"
    "\<forall>j \<in> set jl. j < length (answer wordObj)"
  shows "\<exists>st'. j_loop sz wordObj pw jl st = Some st' \<and> commits sz st st'"
  using assms
proof (induction jl arbitrary: st)
  case Nil
  show ?case by (simp add: commits_refl)
next
  case (Cons j jl)
  show ?case
  proof (cases "placed st")
    case True
    then show ?thesis by (simp add: commits_refl)
  next
    case False
    from Cons.prems have "j < length (answer wordObj)" by simp
    from k_loop_commits[OF Cons.prems(1,2) this, of "[0..<length (answer pw)]"] obtain st1
      where s1: "k_loop sz wordObj pw j [0..<length (answer pw)] st = Some st1"
        and c1: "commits sz st st1" by auto
    have "layout_inv sz F st1" using commits_inv[OF c1 Cons.prems(1)] .
    moreover have "pw \<in> set (placedWords st1)" using commits_subset[OF c1] Cons.prems(2) by blast
    ultimately obtain st' where s': "j_loop sz wordObj pw jl st1 = Some st'"
      and c': "commits sz st1 st'"
      using Cons.IH[of st1] Cons.prems(3) by auto
    from s1 s' False commits_trans[OF c' c1] show ?thesis by simp
  qed
qed

lemma placed_loop_commits:
  assumes "layout_inv sz F st" "set pws \<subseteq> set (placedWords st)"
  shows "\<exists>st'. placed_loop sz wordObj pws st = Some st' \<and> commits sz st st'"
  using assms
proof (induction pws arbitrary: st)
  case Nil
  show ?case by (simp add: commits_refl)
next
  case (Cons pw pws)
  show ?case
  proof (cases "placed st")
    case True
    then show ?thesis by (simp add: commits_refl)
  next
    case False
    from Cons.prems have "pw \<in> set (placedWords st)" by simp
    from j_loop_commits[OF Cons.prems(1) this, of "[0..<length (answer wordObj)]" wordObj] obtain st1
      where s1: "j_loop sz wordObj pw [0..<length (answer wordObj)] st = Some st1"
        and c1: "commits sz st st1" by auto
    have "layout_inv sz F st1" using commits_inv[OF c1 Cons.prems(1)] .
    moreover have "set pws \<subseteq> set (placedWords st1)"
      using commits_subset[OF c1] Cons.prems(2) by auto
    ultimately obtain st' where s': "placed_loop sz wordObj pws st1 = Some st'"
      and c': "commits sz st1 st'"
      using Cons.IH[of st1] by auto
    from s1 s' False commits_trans[OF c' c1] show ?thesis by simp
  qed
qed

lemma place_remaining_commits:
  assumes "layout_inv sz F st"
  shows "\<exists>st'. place_remaining sz wordObj st = Some st' \<and> commits sz st st'"
proof (cases "\<exists>w \<in> set (placedWords st). answer w = answer wordObj")
  case True
  then show ?thesis by (simp add: place_remaining_def commits_refl)
next
  case False
  have "layout_inv sz F (st\<lparr>placed := False\<rparr>)"
    using assms layout_inv_same[of "st\<lparr>placed := False\<rparr>" st sz F] by simp
  from placed_loop_commits[OF this, of "placedWords st" wordObj] obtain st'
    where s: "placed_loop sz wordObj (placedWords st) (st\<lparr>placed := False\<rparr>) = Some st'"
      and c: "commits sz (st\<lparr>placed := False\<rparr>) st'" by auto
  from commits_trans[OF c commits_flag] s False show ?thesis
    by (auto simp: place_remaining_def)
qed

lemma pass_loop_commits:
  assumes "layout_inv sz F st"
  shows "\<exists>st'. pass_loop sz ws st = Some st' \<and> commits sz st st'"
  using assms
proof (induction ws arbitrary: st)
  case Nil
  show ?case by (simp add: commits_refl)
next
  case (Cons w ws)
  from place_remaining_commits[OF Cons.prems] obtain st1
    where s1: "place_remaining sz w st = Some st1" and c1: "commits sz st st1" by blast
  from Cons.IH[OF commits_inv[OF c1 Cons.prems]] obtain st'
    where s': "pass_loop sz ws st1 = Some st'" and c': "commits sz st1 st'" by blast
  from s1 s' commits_trans[OF c' c1] show ?case by simp
qed

subsection \<open>The result of the layout\<close>





lemma new_grid_length: "length (new_grid sz) = sz"
  by (simp add: new_grid_def)

lemma placeWord_nonempty_grid: "placeWord g (ch # rest) r c d = Some g' \<Longrightarrow> g \<noteq> []"
  by (auto simp: grid_set_def split: option.splits if_splits)

lemma first_placeWord_Some:
  "0 < sz \<or> word = [] \<Longrightarrow> \<exists>g. placeWord (new_grid sz) word (int sz div 2) c Across = Some g"
  by (intro placeWord_Some) (auto simp: new_grid_length)

lemma first_placeWord_None:
  "word \<noteq> [] \<Longrightarrow> placeWord (new_grid 0) word r c d = None"
  by (cases word) (auto simp: new_grid_def grid_set_def)

lemma initial_inv:
  assumes "placeWord (new_grid sz) (answer first) (int sz div 2)
             ((int sz - int (length (answer first))) div 2) Across = Some g"
  shows "layout_inv sz (first_placed first sz)
           \<lparr>grid = g, placedWords = [first_placed first sz], placed = False\<rparr>"
proof -
  let ?F = "first_placed first sz"
  have F: "direction ?F = Across" "row ?F = int sz div 2" "answer ?F = answer first"
    "col ?F = (int sz - int (length (answer ?F))) div 2"
    by (simp_all add: first_placed_def)
  have lg: "length g = sz" using placeWord_length[OF assms] by (simp add: new_grid_length)
  have ne: "answer ?F \<noteq> [] \<longrightarrow> 0 < sz"
  proof
    assume "answer ?F \<noteq> []"
    then obtain ch rest where "answer first = ch # rest" using F(3) by (cases "answer first") auto
    with assms have "new_grid sz \<noteq> []" using placeWord_nonempty_grid by metis
    then show "0 < sz" by (simp add: new_grid_def)
  qed
  have wd: "0 < sz \<longrightarrow> sz \<le> js_length (g ! 0)"
  proof
    assume "0 < sz"
    then have "js_length (new_grid sz ! 0) \<le> js_length (g ! 0)"
      by (intro placeWord_width[OF assms]) (simp add: new_grid_length)
    moreover have "js_length (new_grid sz ! 0) = sz" using \<open>0 < sz\<close> by (simp add: new_grid_def)
    ultimately show "sz \<le> js_length (g ! 0)" by simp
  qed
  have lt: "letters_in_grid g ?F"
    using placeWord_cellv[OF assms] by (simp add: letters_in_grid_def first_placed_def)
  have ab: "no_abutting [?F]"
    unfolding no_abutting_iff by (simp add: cell_at_def F)
  show ?thesis
    unfolding layout_inv_def using lg wd F(1,2,4) ne lt ab by simp
qed

text \<open>The layout returns, and its result is the word list of a state that keeps the invariant.\<close>

lemma generateGridLayout_result:
  assumes s: "sortedWords ws = first # remaining"
    and ok: "0 < sz \<or> answer first = []"
  shows "\<exists>g st. placeWord (new_grid sz) (answer first) (int sz div 2)
             ((int sz - int (length (answer first))) div 2) Across = Some g \<and>
           generateGridLayout ws sz = Some (placedWords st) \<and>
           layout_inv sz (first_placed first sz) st \<and>
           commits sz \<lparr>grid = g, placedWords = [first_placed first sz], placed = False\<rparr> st"
proof -
  let ?F = "first_placed first sz"
  from first_placeWord_Some[OF ok] obtain g where
    g: "placeWord (new_grid sz) (answer first) (int sz div 2)
             ((int sz - int (length (answer first))) div 2) Across = Some g" by blast
  let ?st0 = "\<lparr>grid = g, placedWords = [?F], placed = False\<rparr>"
  have i0: "layout_inv sz ?F ?st0" by (rule initial_inv[OF g])
  from pass_loop_commits[OF i0] obtain st1 where
    p1: "pass_loop sz remaining ?st0 = Some st1" and c1: "commits sz ?st0 st1" by blast
  from pass_loop_commits[OF commits_inv[OF c1 i0]] obtain st2 where
    p2: "pass_loop sz remaining st1 = Some st2" and c2: "commits sz st1 st2" by blast
  have "generateGridLayout ws sz = Some (placedWords st2)"
    by (simp add: generateGridLayout_def s g p1 p2)
  moreover have "layout_inv sz ?F st2" using commits_inv[OF c2 commits_inv[OF c1 i0]] .
  moreover have "commits sz ?st0 st2" using commits_trans[OF c2 c1] .
  ultimately show ?thesis using g by blast
qed

lemma generateGridLayout_None:
  assumes "sortedWords ws = first # remaining" "sz = 0" "answer first \<noteq> []"
  shows "generateGridLayout ws sz = None"
  using assms by (simp add: generateGridLayout_def first_placeWord_None)

lemma generateGridLayout_cases:
  assumes "generateGridLayout ws sz = Some out"
  shows "out = [] \<or> (\<exists>F st. out = placedWords st \<and> layout_inv sz F st)"
proof (cases "sortedWords ws")
  case Nil
  with assms show ?thesis by (simp add: generateGridLayout_def)
next
  case (Cons first remaining)
  have "0 < sz \<or> answer first = []"
    using generateGridLayout_None[OF Cons] assms by fastforce
  from generateGridLayout_result[OF Cons this] assms show ?thesis by auto
qed

lemma layout_inv_no_conflict:
  assumes "layout_inv sz F st"
  shows "no_conflict (placedWords st)"
proof -
  from assms have l: "\<forall>pw \<in> set (placedWords st). letters_in_grid (grid st) pw"
    unfolding layout_inv_def by blast
  show ?thesis unfolding no_conflict_def
  proof (intro ballI impI)
    fix w w' i i'
    assume a: "w \<in> set (placedWords st)" "w' \<in> set (placedWords st)"
      "i \<in> {0..<length (answer w)}" "i' \<in> {0..<length (answer w')}"
      "cell_at w (int i) = cell_at w' (int i')"
    from l a(1,3) have "cellv (grid st) (cell_at w (int i)) = Letter (answer w ! i)"
      by (simp add: letters_in_grid_def)
    moreover from l a(2,4) have "cellv (grid st) (cell_at w' (int i')) = Letter (answer w' ! i')"
      by (simp add: letters_in_grid_def)
    ultimately show "answer w ! i = answer w' ! i'" using a(5) by simp
  qed
qed



subsection \<open>The claims about the crossword layout\<close>


text \<open>
  How \<open>ends_free\<close> fails: the cell before the start of a placed word is a letter cell of
  a placed word of the same direction.
\<close>

lemma ends_free_start:
  assumes "ends_free out" and "w \<in> set out" and "w' \<in> set out" and "direction w' = direction w"
  shows "cell_at w (- 1) \<notin> set (letter_cells w')"
  using assms unfolding ends_free_def by blast

text \<open>
  Claim C4: in the list the layout returns no two placed words assign different letters to a
  cell, and the cell before the start and the cell after the end of a placed word are no
  letter cells of a word of the same direction.  The second half fails.
  \<open>canPlaceWord\<close> looks at the cells around the new word only, and takes a cell that
  holds the right letter whatever the direction of the word it belongs to.  On a 12 by 12
  grid the words TIGER, UPON, ICON, ON are laid out as TIGER across at (6, 3), ICON down at
  (6, 4), ON across at (8, 4), on the O of ICON, and then, in the second pass, UPON across
  at (8, 2), over ON: the cell before the start of ON is the P of UPON, so the list is not
  \<open>ends_free\<close>.
\<close>

theorem later_word_runs_over_earlier:
  "generateGridLayout
     [\<lparr>answer = js ''TIGER'', clue = []\<rparr>, \<lparr>answer = js ''UPON'', clue = []\<rparr>,
      \<lparr>answer = js ''ICON'', clue = []\<rparr>, \<lparr>answer = js ''ON'', clue = []\<rparr>] 12
   = Some [\<lparr>answer = js ''TIGER'', clue = [], row = 6, col = 3, direction = Across\<rparr>,
           \<lparr>answer = js ''ICON'', clue = [], row = 6, col = 4, direction = Down\<rparr>,
           \<lparr>answer = js ''ON'', clue = [], row = 8, col = 4, direction = Across\<rparr>,
           \<lparr>answer = js ''UPON'', clue = [], row = 8, col = 2, direction = Across\<rparr>] \<and>
   cell_at \<lparr>answer = js ''ON'', clue = [], row = 8, col = 4, direction = Across\<rparr> (- 1)
     \<in> set (letter_cells \<lparr>answer = js ''UPON'', clue = [], row = 8, col = 2, direction = Across\<rparr>)"
  by code_simp

text \<open>
  What holds of every word list and every grid size: the layout returns (unless the size is
  0, where it may throw), and in the list it returns no two placed words assign different
  letters to the same cell, and no placed word starts in the cell after the end of a placed
  word of the same direction, nor ends in the cell before its start.
\<close>

theorem layout_legal:
  "(0 < sz \<longrightarrow> generateGridLayout wordsData sz \<noteq> None) \<and>
   (\<forall>out. generateGridLayout wordsData sz = Some out \<longrightarrow> no_conflict out \<and> no_abutting out)"
proof (intro conjI impI allI)
  assume sz: "0 < sz"
  show "generateGridLayout wordsData sz \<noteq> None"
  proof (cases "sortedWords wordsData")
    case Nil
    then show ?thesis by (simp add: generateGridLayout_def)
  next
    case (Cons first remaining)
    from sz have "0 < sz \<or> answer first = []" by simp
    from generateGridLayout_result[OF Cons this] obtain st :: layout where
      "generateGridLayout wordsData sz = Some (placedWords st)" by blast
    then show ?thesis by simp
  qed
next
  fix out assume "generateGridLayout wordsData sz = Some out"
  from generateGridLayout_cases[OF this]
  consider "out = []" | F st where "out = placedWords st" "layout_inv sz F st" by blast
  then show "no_conflict out"
  proof cases
    case 1
    then show ?thesis by (simp add: no_conflict_def)
  next
    case 2
    from layout_inv_no_conflict[OF 2(2)] 2(1) show ?thesis by simp
  qed
next
  fix out assume "generateGridLayout wordsData sz = Some out"
  from generateGridLayout_cases[OF this]
  consider "out = []" | F st where "out = placedWords st" "layout_inv sz F st" by blast
  then show "no_abutting out"
  proof cases
    case 1
    then show ?thesis by (simp add: no_abutting_def)
  next
    case 2
    from 2(2) have "no_abutting (placedWords st)" unfolding layout_inv_def by (elim conjE)
    with 2(1) show ?thesis by simp
  qed
qed

text \<open>The theorem at the words LOGIC and GRID on a 12 by 12 grid.\<close>

theorem layout_legal_witness:
  "generateGridLayout [\<lparr>answer = js ''LOGIC'', clue = js ''c1''\<rparr>, \<lparr>answer = js ''GRID'', clue = js ''c2''\<rparr>] 12
   = Some [\<lparr>answer = js ''LOGIC'', clue = js ''c1'', row = 6, col = 3, direction = Across\<rparr>,
           \<lparr>answer = js ''GRID'', clue = js ''c2'', row = 6, col = 5, direction = Down\<rparr>] \<and>
   no_conflict [\<lparr>answer = js ''LOGIC'', clue = js ''c1'', row = 6, col = 3, direction = Across\<rparr>,
           \<lparr>answer = js ''GRID'', clue = js ''c2'', row = 6, col = 5, direction = Down\<rparr>] \<and>
   no_abutting [\<lparr>answer = js ''LOGIC'', clue = js ''c1'', row = 6, col = 3, direction = Across\<rparr>,
           \<lparr>answer = js ''GRID'', clue = js ''c2'', row = 6, col = 5, direction = Down\<rparr>]"
proof -
  have e: "generateGridLayout [\<lparr>answer = js ''LOGIC'', clue = js ''c1''\<rparr>, \<lparr>answer = js ''GRID'', clue = js ''c2''\<rparr>] 12
   = Some [\<lparr>answer = js ''LOGIC'', clue = js ''c1'', row = 6, col = 3, direction = Across\<rparr>,
           \<lparr>answer = js ''GRID'', clue = js ''c2'', row = 6, col = 5, direction = Down\<rparr>]"
    by code_simp
  from layout_legal[of 12 "[\<lparr>answer = js ''LOGIC'', clue = js ''c1''\<rparr>, \<lparr>answer = js ''GRID'', clue = js ''c2''\<rparr>]"] e
  show ?thesis by blast
qed

text \<open>
  Claim C8.  The loop over \<open>k\<close> has no \<open>break\<close>: after a word is placed at one letter of
  a placed word, the later letters of that placed word are still tried.  On a 12 by 12 grid
  the words LEVEL and EAT are laid out as LEVEL across at (6, 3), EAT down at (6, 4), on the
  first E, and EAT again down at (6, 6), on the second E.
\<close>

theorem word_committed_twice:
  "generateGridLayout [\<lparr>answer = js ''LEVEL'', clue = []\<rparr>, \<lparr>answer = js ''EAT'', clue = []\<rparr>] 12
   = Some [\<lparr>answer = js ''LEVEL'', clue = [], row = 6, col = 3, direction = Across\<rparr>,
           \<lparr>answer = js ''EAT'', clue = [], row = 6, col = 4, direction = Down\<rparr>,
           \<lparr>answer = js ''EAT'', clue = [], row = 6, col = 6, direction = Down\<rparr>]"
  by code_simp






end
